theory Spec2Isabelle
  imports Complex_Main "HOL-Library.Word" "HOL-Library.AList"
begin

unbundle bit_operations_syntax

section \<open>Numbers, strings and insertion-ordered maps\<close>

text \<open>
  The program is TypeScript. Its integer-valued numbers (chunk coordinates, offsets,
  counters) are modelled as \<open>int\<close> or \<open>nat\<close>; its fractional numbers (opacities,
  timestamps of \<^verbatim>\<open>performance.now()\<close>, world positions) as exact rationals or
  reals. A JavaScript \<^verbatim>\<open>Map\<close> iterates in insertion order, and \<^verbatim>\<open>set\<close> on a
  key that is present keeps the key's position: it is modelled as an association list
  with \<open>AList.update\<close> (in place, or appended at the end), \<open>AList.delete\<close> and
  \<open>map_of\<close>.
\<close>

definition digit_char :: "nat \<Rightarrow> char" where
  "digit_char d = char_of (48 + d)"

function string_of_nat :: "nat \<Rightarrow> string" where
  "string_of_nat n =
     (if n < 10 then [digit_char n] else string_of_nat (n div 10) @ [digit_char (n mod 10)])"
  by pat_completeness auto
termination
  by (relation "measure id") auto

declare string_of_nat.simps [simp del]

text \<open>
  Template-literal conversion \<^verbatim>\<open>`${n}`\<close> of an integer-valued number: decimal
  digits with a leading minus sign (for magnitudes below \<open>10^21\<close>, beyond which
  JavaScript switches to exponent notation).
\<close>

definition string_of_int :: "int \<Rightarrow> string" where
  "string_of_int i = (if i < 0 then CHR ''-'' # string_of_nat (nat (- i)) else string_of_nat (nat i))"

text \<open>The chunk key \<^verbatim>\<open>`${cx},${cy},${cz}`\<close>.\<close>

definition chunkKey :: "int \<Rightarrow> int \<Rightarrow> int \<Rightarrow> string" where
  "chunkKey cx cy cz = string_of_int cx @ '','' @ string_of_int cy @ '','' @ string_of_int cz"

section \<open>Constants (src/lib/constants.ts)\<close>

definition CHUNK_SIZE :: int where "CHUNK_SIZE = 110"
definition RENDER_DISTANCE :: int where "RENDER_DISTANCE = 2"
definition CHUNK_FADE_MARGIN :: int where "CHUNK_FADE_MARGIN = 1"
definition PLANES_PER_CHUNK :: nat where "PLANES_PER_CHUNK = 12"
definition PLANE_SIZE_MIN :: int where "PLANE_SIZE_MIN = 12"
definition PLANE_SIZE_MAX :: int where "PLANE_SIZE_MAX = 20"

record ChunkOffset =
  dx :: int
  dy :: int
  dz :: int

text \<open>\<^verbatim>\<open>Math.max(Math.abs(o.dx), Math.abs(o.dy), Math.abs(o.dz))\<close>\<close>

definition chebyshev :: "ChunkOffset \<Rightarrow> int" where
  "chebyshev off = max (max \<bar>dx off\<bar> \<bar>dy off\<bar>) \<bar>dz off\<bar>"

text \<open>
  \<^verbatim>\<open>computeChunkOffsets\<close>: three nested loops from \<open>-maxDist\<close> to \<open>maxDist\<close> pushing
  the offsets whose distance is at most \<open>maxDist\<close>, then
  \<^verbatim>\<open>offsets.sort((a, b) => distA - distB)\<close>, a stable sort by distance.
\<close>

definition offsetCandidates :: "int \<Rightarrow> ChunkOffset list" where
  "offsetCandidates maxDist =
     concat (map (\<lambda>x. concat (map (\<lambda>y. map (\<lambda>z. \<lparr>dx = x, dy = y, dz = z\<rparr>)
       [- maxDist .. maxDist]) [- maxDist .. maxDist])) [- maxDist .. maxDist])"

definition computeChunkOffsets :: "int \<Rightarrow> ChunkOffset list" where
  "computeChunkOffsets maxDist =
     sort_key chebyshev (filter (\<lambda>off. chebyshev off \<le> maxDist) (offsetCandidates maxDist))"

definition CHUNK_OFFSETS :: "ChunkOffset list" where
  "CHUNK_OFFSETS = computeChunkOffsets (RENDER_DISTANCE + CHUNK_FADE_MARGIN)"

text \<open>
  \<^verbatim>\<open>ChunkData\<close> is \<^verbatim>\<open>{ key, cx, cy, cz }\<close>; the fields carry the prefix \<open>chunk_\<close>
  here, so that \<open>cx\<close>, \<open>cy\<close>, \<open>cz\<close> stay free for the parameters of the functions below.
\<close>

record ChunkData =
  chunk_key :: string
  chunk_cx :: int
  chunk_cy :: int
  chunk_cz :: int

text \<open>
  The active chunk set recentred on \<open>(ucx, ucy, ucz)\<close>, as both the mount effect
  (with the centre \<open>(0, 0, 0)\<close> written out in the source) and the frame loop build it:
  \<^verbatim>\<open>CHUNK_OFFSETS.map((o) => ({ key: ..., cx: ucx + o.dx, cy: ucy + o.dy, cz: ucz + o.dz }))\<close>.
\<close>

definition chunksAround :: "int \<Rightarrow> int \<Rightarrow> int \<Rightarrow> ChunkData list" where
  "chunksAround ucx ucy ucz =
     map (\<lambda>off. \<lparr>chunk_key = chunkKey (ucx + dx off) (ucy + dy off) (ucz + dz off),
                 chunk_cx = ucx + dx off, chunk_cy = ucy + dy off, chunk_cz = ucz + dz off\<rparr>) CHUNK_OFFSETS"

definition initialChunks :: "ChunkData list" where
  "initialChunks =
     map (\<lambda>off. \<lparr>chunk_key = chunkKey (dx off) (dy off) (dz off),
                 chunk_cx = dx off, chunk_cy = dy off, chunk_cz = dz off\<rparr>) CHUNK_OFFSETS"


section \<open>Chunk-update throttling (src/lib/chunk-utils.ts, scene.tsx)\<close>

definition INITIAL_CAMERA_Z :: real where "INITIAL_CAMERA_Z = 50"

definition getChunkUpdateThrottleMs :: "bool \<Rightarrow> real \<Rightarrow> real" where
  "getChunkUpdateThrottleMs isZooming zoomSpeed =
     (if zoomSpeed > 1.0 then 500 else if isZooming then 400 else 100)"

definition shouldThrottleUpdate :: "real \<Rightarrow> real \<Rightarrow> real \<Rightarrow> bool" where
  "shouldThrottleUpdate lastUpdate throttleMs now \<longleftrightarrow> now - lastUpdate \<ge> throttleMs"

text \<open>
  The fields of \<^verbatim>\<open>ControllerState\<close> that the chunk bookkeeping of the frame loop
  reads and writes, together with the React state \<^verbatim>\<open>chunks\<close> that \<^verbatim>\<open>setChunks\<close>
  replaces. \<open>applied\<close> records the centre of every \<^verbatim>\<open>setChunks\<close> call of the frame
  loop, oldest first; the program does not store it.
\<close>

record ControllerState =
  lastChunkKey :: string
  lastChunkUpdate :: real
  pendingChunk :: "(int \<times> int \<times> int) option"
  chunks :: "ChunkData list"
  applied :: "(int \<times> int \<times> int) list"

text \<open>\<^verbatim>\<open>createInitialState\<close> and \<^verbatim>\<open>useState<ChunkData[]>([])\<close>.\<close>

definition createInitialState :: ControllerState where
  "createInitialState =
     \<lparr>lastChunkKey = [], lastChunkUpdate = 0, pendingChunk = None, chunks = [], applied = []\<rparr>"

text \<open>The mount effect \<^verbatim>\<open>setChunks(CHUNK_OFFSETS.map(...))\<close>.\<close>

definition mountChunks :: "ControllerState \<Rightarrow> ControllerState" where
  "mountChunks s = s\<lparr>chunks := initialChunks\<rparr>"

text \<open>\<^verbatim>\<open>Math.floor(s.basePos.x / CHUNK_SIZE)\<close>\<close>

definition chunkCoord :: "real \<Rightarrow> int" where
  "chunkCoord p = \<lfloor>p / real_of_int CHUNK_SIZE\<rfloor>"

text \<open>
  One frame of \<^verbatim>\<open>useFrame\<close>, from "Chunk coordinates" to the end of "Throttled chunk
  updates". Its inputs are what the earlier part of the frame computed: the base
  position after integration, \<open>isZooming\<close> (taken from the velocity before this frame's
  smoothing), the velocity's z component after smoothing, and \<^verbatim>\<open>performance.now()\<close>.
\<close>

definition chunkFrame ::
    "real \<times> real \<times> real \<Rightarrow> bool \<Rightarrow> real \<Rightarrow> real \<Rightarrow> ControllerState \<Rightarrow> ControllerState" where
  "chunkFrame basePos isZooming vz now s =
     (let cx = chunkCoord (fst basePos);
          cy = chunkCoord (fst (snd basePos));
          cz = chunkCoord (snd (snd basePos));
          k = chunkKey cx cy cz;
          s1 = (if k \<noteq> lastChunkKey s
                then s\<lparr>pendingChunk := Some (cx, cy, cz), lastChunkKey := k\<rparr> else s);
          throttleMs = getChunkUpdateThrottleMs isZooming \<bar>vz\<bar>
      in case pendingChunk s1 of
           None \<Rightarrow> s1
         | Some (ucx, ucy, ucz) \<Rightarrow>
             if shouldThrottleUpdate (lastChunkUpdate s1) throttleMs now
             then s1\<lparr>pendingChunk := None, lastChunkUpdate := now,
                     chunks := chunksAround ucx ucy ucz,
                     applied := applied s1 @ [(ucx, ucy, ucz)]\<rparr>
             else s1)"

text \<open>A run of frames with the camera at rest at its initial position \<open>(0, 0, 50)\<close>.\<close>

definition restFrames :: "real list \<Rightarrow> ControllerState \<Rightarrow> ControllerState" where
  "restFrames ts s = foldl (\<lambda>s' t. chunkFrame (0, 0, INITIAL_CAMERA_Z) False 0 t s') s ts"

text \<open>
  What one frame hands to the chunk bookkeeping, and a run of frames in order.
  \<open>frameCoord\<close> is the chunk coordinate the frame computes from the base position.
\<close>

record FrameInput =
  f_basePos :: "real \<times> real \<times> real"
  f_isZooming :: bool
  f_vz :: real
  f_now :: real

definition frameCoord :: "FrameInput \<Rightarrow> int \<times> int \<times> int" where
  "frameCoord f =
     (chunkCoord (fst (f_basePos f)), chunkCoord (fst (snd (f_basePos f))),
      chunkCoord (snd (snd (f_basePos f))))"

definition frameThrottle :: "FrameInput \<Rightarrow> real" where
  "frameThrottle f = getChunkUpdateThrottleMs (f_isZooming f) \<bar>f_vz f\<bar>"

definition frameStep :: "ControllerState \<Rightarrow> FrameInput \<Rightarrow> ControllerState" where
  "frameStep s f = chunkFrame (f_basePos f) (f_isZooming f) (f_vz f) (f_now f) s"

definition runFrames :: "FrameInput list \<Rightarrow> ControllerState \<Rightarrow> ControllerState" where
  "runFrames fs s = foldl frameStep s fs"

text \<open>The key of a coordinate triple, as the frame loop builds it.\<close>

definition keyOf :: "int \<times> int \<times> int \<Rightarrow> string" where
  "keyOf c = chunkKey (fst c) (fst (snd c)) (snd (snd c))"

text \<open>
  Invariant of the frame loop: a pending marker, when there is one, names the chunk
  whose key is \<open>lastChunkKey\<close>.
\<close>

definition marker_ok :: "ControllerState \<Rightarrow> bool" where
  "marker_ok s \<longleftrightarrow> (case pendingChunk s of None \<Rightarrow> True | Some c \<Rightarrow> keyOf c = lastChunkKey s)"


section \<open>Deterministic generator and plane cache (src/lib/chunk-utils.ts, utils.ts)\<close>

text \<open>
  \<^verbatim>\<open>hashString\<close>: \<^verbatim>\<open>hash = (hash * 33) ^ str.charCodeAt(i)\<close> from 5381, then
  \<^verbatim>\<open>hash >>> 0\<close>. The bitwise XOR takes its operands modulo \<open>2^32\<close>, so the loop is
  arithmetic on 32-bit words and the result is read unsigned. The strings hashed here
  are ASCII.
\<close>

definition hashString :: "string \<Rightarrow> nat" where
  "hashString str =
     unat (foldl (\<lambda>(hash :: 32 word) c. (hash * 33) XOR word_of_nat (of_char c)) 5381 str)"

text \<open>
  \<^verbatim>\<open>seededRandom\<close>: \<^verbatim>\<open>x = Math.sin(seed * 9999.9) * 99_999.9; return x - Math.floor(x)\<close>.
  \<^verbatim>\<open>Math.sin\<close> is the platform's approximation of the sine; it is the parameter \<open>sn\<close>,
  and nothing below depends on which function it is. Arithmetic is exact here, where
  the program rounds to IEEE doubles.
\<close>

definition seededRandom :: "(real \<Rightarrow> real) \<Rightarrow> real \<Rightarrow> real" where
  "seededRandom sn seed = (let x = sn (seed * 9999.9) * 99999.9 in x - of_int \<lfloor>x\<rfloor>)"

text \<open>
  \<^verbatim>\<open>PlaneData\<close> is \<^verbatim>\<open>{ id, position, scale, mediaIndex }\<close>; \<open>id\<close> is the field
  \<open>plane_id\<close> here, a \<^verbatim>\<open>Vector3\<close> is a triple.
\<close>

record PlaneData =
  plane_id :: string
  position :: "real \<times> real \<times> real"
  scale :: "real \<times> real \<times> real"
  mediaIndex :: int

text \<open>The body of the loop of \<^verbatim>\<open>generateChunkPlanes\<close> for the plane number \<open>i\<close>.\<close>

definition generatePlane ::
    "(real \<Rightarrow> real) \<Rightarrow> int \<Rightarrow> int \<Rightarrow> int \<Rightarrow> nat \<Rightarrow> nat \<Rightarrow> PlaneData" where
  "generatePlane sn cx cy cz seed i =
     (let s = seed + i * 1000;
          r = (\<lambda>n :: nat. seededRandom sn (real (s + n)));
          size = real_of_int PLANE_SIZE_MIN + r 4 * real_of_int (PLANE_SIZE_MAX - PLANE_SIZE_MIN)
      in \<lparr>plane_id = string_of_int cx @ ''-'' @ string_of_int cy @ ''-'' @ string_of_int cz
                      @ ''-'' @ string_of_nat i,
          position = (real_of_int (cx * CHUNK_SIZE) + r 0 * real_of_int CHUNK_SIZE,
                      real_of_int (cy * CHUNK_SIZE) + r 1 * real_of_int CHUNK_SIZE,
                      real_of_int (cz * CHUNK_SIZE) + r 2 * real_of_int CHUNK_SIZE),
          scale = (size, size, 1),
          mediaIndex = \<lfloor>r 5 * 1000000\<rfloor>\<rparr>)"

definition generateChunkPlanes ::
    "(real \<Rightarrow> real) \<Rightarrow> int \<Rightarrow> int \<Rightarrow> int \<Rightarrow> PlaneData list" where
  "generateChunkPlanes sn cx cy cz =
     (let seed = hashString (chunkKey cx cy cz)
      in map (generatePlane sn cx cy cz seed) [0 ..< PLANES_PER_CHUNK])"

definition MAX_PLANE_CACHE :: nat where "MAX_PLANE_CACHE = 256"

type_synonym planeCache = "(string \<times> PlaneData list) list"

text \<open>
  The eviction loop
  \<^verbatim>\<open>while (planeCache.size > MAX_PLANE_CACHE) { const firstKey = planeCache.keys().next().value; if (firstKey) planeCache.delete(firstKey); }\<close>.
  An empty string is falsy, so a first key \<open>''''\<close> would be left in place and the loop
  would not end: the result is \<open>None\<close> then.
\<close>

partial_function (option) evictPlanes :: "planeCache \<Rightarrow> planeCache option" where
  "evictPlanes cache =
     (if length cache > MAX_PLANE_CACHE
      then (case cache of
              [] \<Rightarrow> evictPlanes cache
            | (firstKey, _) # _ \<Rightarrow>
                if firstKey \<noteq> [] then evictPlanes (AList.delete firstKey cache)
                else evictPlanes cache)
      else Some cache)"

text \<open>
  \<^verbatim>\<open>generateChunkPlanesCached\<close> returns the plane list and the cache it leaves. An
  array is truthy, so \<^verbatim>\<open>if (cached)\<close> is the test that the key is present. On a hit
  the entry is deleted and set again, which moves it to the end of the iteration order.
\<close>

definition generateChunkPlanesCached ::
    "(real \<Rightarrow> real) \<Rightarrow> int \<Rightarrow> int \<Rightarrow> int \<Rightarrow> planeCache \<Rightarrow> (PlaneData list \<times> planeCache) option" where
  "generateChunkPlanesCached sn cx cy cz cache =
     (let k = chunkKey cx cy cz
      in case map_of cache k of
           Some cached \<Rightarrow> Some (cached, AList.update k cached (AList.delete k cache))
         | None \<Rightarrow>
             (let planes = generateChunkPlanes sn cx cy cz
              in case evictPlanes (AList.update k planes cache) of
                   None \<Rightarrow> None
                 | Some cache' \<Rightarrow> Some (planes, cache')))"

text \<open>A sequence of calls, each on the cache the previous one left; the empty cache at start.\<close>

fun accessChunks ::
    "(real \<Rightarrow> real) \<Rightarrow> (int \<times> int \<times> int) list \<Rightarrow> planeCache \<Rightarrow> planeCache option" where
  "accessChunks sn [] cache = Some cache"
| "accessChunks sn ((cx, cy, cz) # cs) cache =
     (case generateChunkPlanesCached sn cx cy cz cache of
        None \<Rightarrow> None
      | Some (_, cache') \<Rightarrow> accessChunks sn cs cache')"

text \<open>
  The policy in the specification's words, on the list of keys from least to most
  recently used: an access moves the key to the most-recently-used end (or adds it
  there), then the oldest keys are dropped while the capacity is exceeded.
\<close>

definition lru_access :: "nat \<Rightarrow> 'k list \<Rightarrow> 'k \<Rightarrow> 'k list" where
  "lru_access cap ks k = (let ks' = removeAll k ks @ [k] in drop (length ks' - cap) ks')"

text \<open>
  The scene composer's lookup \<^verbatim>\<open>media[plane.mediaIndex % media.length]\<close> followed by
  \<^verbatim>\<open>if (!mediaItem) return null\<close>. The remainder \<^verbatim>\<open>%\<close> takes the sign of the dividend
  and is NaN for a zero divisor; indexing an array with NaN, a negative number or a
  number past the end gives \<^verbatim>\<open>undefined\<close>. \<open>None\<close> stands for NaN and for
  \<^verbatim>\<open>undefined\<close>.
\<close>

record MediaItem =
  url :: string
  width :: real
  height :: real
  title :: "string option"

definition js_rem :: "int \<Rightarrow> int \<Rightarrow> int option" where
  "js_rem a b = (if b = 0 then None else Some (sgn a * (\<bar>a\<bar> mod \<bar>b\<bar>)))"

definition js_index :: "'a list \<Rightarrow> int option \<Rightarrow> 'a option" where
  "js_index xs i =
     (case i of
        None \<Rightarrow> None
      | Some j \<Rightarrow> if 0 \<le> j \<and> j < int (length xs) then Some (xs ! nat j) else None)"

definition planeMedia :: "MediaItem list \<Rightarrow> PlaneData \<Rightarrow> MediaItem option" where
  "planeMedia media plane = js_index media (js_rem (mediaIndex plane) (int (length media)))"

text \<open>
  The planes a \<^verbatim>\<open>Chunk\<close> renders: one \<^verbatim>\<open>MediaPlane\<close> (media item, position, scale)
  for each plane whose lookup finds an item, nothing for the others.
\<close>

definition chunkMediaPlanes ::
    "MediaItem list \<Rightarrow> PlaneData list \<Rightarrow> (MediaItem \<times> (real \<times> real \<times> real) \<times> (real \<times> real \<times> real)) list" where
  "chunkMediaPlanes media planes =
     concat (map (\<lambda>plane. case planeMedia media plane of
                             None \<Rightarrow> []
                           | Some mediaItem \<Rightarrow> [(mediaItem, position plane, scale plane)]) planes)"


text \<open>
  Invariant of the plane cache: the keys are distinct (it is a \<^verbatim>\<open>Map\<close>), within the
  capacity, and each entry holds the generator's list for the chunk its key names.
\<close>

definition entry_ok :: "(real \<Rightarrow> real) \<Rightarrow> string \<times> PlaneData list \<Rightarrow> bool" where
  "entry_ok sn e \<longleftrightarrow>
     (\<exists>x y z. fst e = chunkKey x y z \<and> snd e = generateChunkPlanes sn x y z)"

definition cache_ok :: "(real \<Rightarrow> real) \<Rightarrow> planeCache \<Rightarrow> bool" where
  "cache_ok sn cache \<longleftrightarrow>
     distinct (map fst cache) \<and> length cache \<le> MAX_PLANE_CACHE \<and> list_all (entry_ok sn) cache"


section \<open>Fade animator (src/lib/fade-manager.ts)\<close>

definition FADE_IN_SPEED :: real where "FADE_IN_SPEED = 0.08"
definition FADE_OUT_SPEED :: real where "FADE_OUT_SPEED = 0.1"

text \<open>
  A \<^verbatim>\<open>FadeEntry\<close> holds references to two materials and two meshes and the two
  opacity scalars. The referenced objects live outside the module: they are handles
  here, and the fields the animator writes (\<^verbatim>\<open>material.opacity\<close>,
  \<^verbatim>\<open>material.depthWrite\<close>, \<^verbatim>\<open>mesh.visible\<close>) are stores indexed by handle, part
  of the state.
\<close>

record FadeEntry =
  imageMaterial :: nat
  placeholderMaterial :: nat
  imageMesh :: nat
  placeholderMesh :: nat
  imageOpacity :: real
  placeholderOpacity :: real

text \<open>
  The module state (\<^verbatim>\<open>activeFades\<close>, \<^verbatim>\<open>isAnimating\<close>, \<^verbatim>\<open>animationFrameId\<close>), the
  stores, and the browser's list of animation-frame requests not yet run, oldest
  first. \<^verbatim>\<open>requestAnimationFrame\<close> hands out the handle \<open>nextFrameId\<close>.
\<close>

record FadeState =
  activeFades :: "(string \<times> FadeEntry) list"
  isAnimating :: bool
  animationFrameId :: "nat option"
  materialOpacity :: "nat \<Rightarrow> real"
  materialDepthWrite :: "nat \<Rightarrow> bool"
  meshVisible :: "nat \<Rightarrow> bool"
  frameRequests :: "nat list"
  nextFrameId :: nat

text \<open>\<^verbatim>\<open>animationFrameId = requestAnimationFrame(animate)\<close>\<close>

definition requestAnimationFrame :: "FadeState \<Rightarrow> FadeState" where
  "requestAnimationFrame s =
     s\<lparr>animationFrameId := Some (nextFrameId s),
       frameRequests := frameRequests s @ [nextFrameId s],
       nextFrameId := Suc (nextFrameId s)\<rparr>"

definition startFade :: "string \<Rightarrow> nat \<Rightarrow> nat \<Rightarrow> nat \<Rightarrow> nat \<Rightarrow> FadeState \<Rightarrow> FadeState" where
  "startFade fid imageMat placeholderMat imageMsh placeholderMsh s =
     (let s1 = s\<lparr>activeFades := AList.update fid
                   \<lparr>imageMaterial = imageMat, placeholderMaterial = placeholderMat,
                    imageMesh = imageMsh, placeholderMesh = placeholderMsh,
                    imageOpacity = 0, placeholderOpacity = 1\<rparr> (activeFades s)\<rparr>
      in if \<not> isAnimating s1 then requestAnimationFrame (s1\<lparr>isAnimating := True\<rparr>) else s1)"

definition removeFade :: "string \<Rightarrow> FadeState \<Rightarrow> FadeState" where
  "removeFade fid s = s\<lparr>activeFades := AList.delete fid (activeFades s)\<rparr>"

text \<open>The loop body of \<^verbatim>\<open>animate\<close>: the new opacity scalars of an entry.\<close>

definition advanceEntry :: "FadeEntry \<Rightarrow> FadeEntry" where
  "advanceEntry e =
     e\<lparr>imageOpacity := min 1 (imageOpacity e + FADE_IN_SPEED),
       placeholderOpacity := max 0 (placeholderOpacity e - FADE_OUT_SPEED)\<rparr>"

text \<open>
  The loop body, continued: the writes to the materials and meshes, in the order of
  the source (image material, placeholder material, the two meshes, depth write).
\<close>

definition applyEntry :: "FadeState \<Rightarrow> FadeEntry \<Rightarrow> FadeState" where
  "applyEntry s e =
     s\<lparr>materialOpacity := (materialOpacity s)
          (imageMaterial e := imageOpacity e, placeholderMaterial e := placeholderOpacity e),
       meshVisible := (meshVisible s)
          (imageMesh e := imageOpacity e > 0.01, placeholderMesh e := placeholderOpacity e > 0.01),
       materialDepthWrite := (materialDepthWrite s) (imageMaterial e := imageOpacity e > 0.99)\<rparr>"

definition fadeComplete :: "FadeEntry \<Rightarrow> bool" where
  "fadeComplete e \<longleftrightarrow> imageOpacity e \<ge> 1 \<and> placeholderOpacity e \<le> 0"

text \<open>
  \<^verbatim>\<open>animate\<close>: every entry is advanced in place and written out, in the map's order;
  the completed ones are collected in \<open>toRemove\<close> and deleted; then the next frame is
  requested if entries remain, and the loop stops otherwise.
\<close>

definition animate :: "FadeState \<Rightarrow> FadeState" where
  "animate s =
     (let entries = map (\<lambda>(fid, e). (fid, advanceEntry e)) (activeFades s);
          s1 = foldl (\<lambda>t (fid, e). applyEntry t e) (s\<lparr>activeFades := entries\<rparr>) entries;
          toRemove = map fst (filter (\<lambda>(fid, e). fadeComplete e) entries);
          s2 = s1\<lparr>activeFades := foldl (\<lambda>al fid. AList.delete fid al) (activeFades s1) toRemove\<rparr>
      in if length (activeFades s2) > 0 then requestAnimationFrame s2
         else s2\<lparr>isAnimating := False, animationFrameId := None\<rparr>)"

text \<open>
  One animation frame of the browser: the oldest pending request is taken off the
  list and its callback, \<^verbatim>\<open>animate\<close>, runs. With no request pending nothing runs.
\<close>

definition tick :: "FadeState \<Rightarrow> FadeState" where
  "tick s = (case frameRequests s of [] \<Rightarrow> s | _ # rest \<Rightarrow> animate (s\<lparr>frameRequests := rest\<rparr>))"

definition ticks :: "nat \<Rightarrow> FadeState \<Rightarrow> FadeState" where
  "ticks n s = (tick ^^ n) s"

text \<open>The number of ticks of the claim, \<open>ceil(1 / FADE_IN_SPEED)\<close>.\<close>

definition fadeTicks :: nat where
  "fadeTicks = nat \<lceil>1 / FADE_IN_SPEED\<rceil>"

text \<open>The module's initial state, over any stores.\<close>

definition fadeInitial :: "(nat \<Rightarrow> real) \<Rightarrow> (nat \<Rightarrow> bool) \<Rightarrow> (nat \<Rightarrow> bool) \<Rightarrow> FadeState" where
  "fadeInitial opac depth vis =
     \<lparr>activeFades = [], isAnimating = False, animationFrameId = None,
      materialOpacity = opac, materialDepthWrite = depth, meshVisible = vis,
      frameRequests = [], nextFrameId = 1\<rparr>"

text \<open>
  Invariant of the module: the loop is marked running exactly when one frame request is
  pending, it is running whenever entries are tracked, and the ids are distinct.
\<close>

definition fade_ok :: "FadeState \<Rightarrow> bool" where
  "fade_ok s \<longleftrightarrow>
     distinct (map fst (activeFades s)) \<and>
     (case animationFrameId s of
        None \<Rightarrow> \<not> isAnimating s \<and> frameRequests s = [] \<and> activeFades s = []
      | Some r \<Rightarrow> isAnimating s \<and> frameRequests s = [r])"

text \<open>No tracked entry other than \<open>fid\<close> refers to the material \<open>h\<close>.\<close>

definition unshared :: "string \<Rightarrow> nat \<Rightarrow> FadeState \<Rightarrow> bool" where
  "unshared fid h s \<longleftrightarrow>
     list_all (\<lambda>(k, e). k = fid \<or> (imageMaterial e \<noteq> h \<and> placeholderMaterial e \<noteq> h))
       (activeFades s)"

text \<open>The entries as the loop of \<^verbatim>\<open>animate\<close> leaves them, before the completed ones are deleted.\<close>

definition advanced :: "FadeState \<Rightarrow> (string \<times> FadeEntry) list" where
  "advanced s = map (\<lambda>(fid, e). (fid, advanceEntry e)) (activeFades s)"


section \<open>Texture manager (src/lib/texture-manager.ts)\<close>

definition MAX_CONCURRENT_LOADS :: int where "MAX_CONCURRENT_LOADS = 8"
definition MAX_CACHE_SIZE :: nat where "MAX_CACHE_SIZE = 750"

text \<open>
  A texture is a handle: the number of textures created before it, so every
  \<^verbatim>\<open>new THREE.Texture\<close> is a new object. A callback is a function object with an
  identity: \<open>OnLoad k\<close> is a caller's function, \<open>ReportProgress i\<close> the closure that
  \<^verbatim>\<open>preloadAllTextures\<close> creates for its item number \<open>i\<close>.
\<close>

datatype callback = OnLoad nat | ReportProgress nat

text \<open>
  The module state, then what the module does to its surroundings, recorded in order:
  the calls of \<^verbatim>\<open>loadImageBitmap\<close> (a fetch and decode started), the loads in flight
  (started and not yet settled: one suspended invocation of \<^verbatim>\<open>processQueue\<close> awaits
  each), the calls of \<^verbatim>\<open>dispose\<close>, of the callbacks, of \<^verbatim>\<open>console.error\<close> for a failed load, and the pending
  \<^verbatim>\<open>setTimeout(processQueue, 0)\<close>; then the variables of one \<^verbatim>\<open>preloadAllTextures\<close>
  promise: \<^verbatim>\<open>total\<close>, \<^verbatim>\<open>loaded\<close>, the values passed to \<^verbatim>\<open>onProgress\<close>, and whether
  \<^verbatim>\<open>resolve\<close> was called. The maps and the set are insertion-ordered lists.
\<close>

record TextureState =
  textureCache :: "(string \<times> nat) list"
  loadCallbacks :: "(string \<times> callback list) list"
  textureLastUsed :: "(string \<times> real) list"
  loadQueue :: "string list"
  activeLoads :: int
  loadingUrls :: "string list"
  fetchStarted :: "string list"
  inFlight :: "string list"
  texturesCreated :: nat
  disposed :: "nat list"
  invoked :: "(callback \<times> nat) list"
  loadErrors :: "string list"
  timers :: nat
  pl_total :: nat
  pl_loaded :: nat
  pl_progress :: "real list"
  pl_resolved :: bool

definition textureInitial :: TextureState where
  "textureInitial =
     \<lparr>textureCache = [], loadCallbacks = [], textureLastUsed = [], loadQueue = [],
      activeLoads = 0, loadingUrls = [], fetchStarted = [], inFlight = [],
      texturesCreated = 0,
      disposed = [], invoked = [], loadErrors = [], timers = 0,
      pl_total = 0, pl_loaded = 0, pl_progress = [], pl_resolved = False\<rparr>"

text \<open>
  \<^verbatim>\<open>reportProgress\<close> of \<^verbatim>\<open>preloadAllTextures\<close>:
  \<^verbatim>\<open>loaded++; onProgress?.(loaded / total); if (loaded === total) resolve();\<close>
\<close>

definition reportProgress :: "TextureState \<Rightarrow> TextureState" where
  "reportProgress s =
     (let l = Suc (pl_loaded s);
          s1 = s\<lparr>pl_loaded := l, pl_progress := pl_progress s @ [real l / real (pl_total s)]\<rparr>
      in if l = pl_total s then s1\<lparr>pl_resolved := True\<rparr> else s1)"

text \<open>Calling a callback with a texture.\<close>

definition invoke :: "nat \<Rightarrow> TextureState \<Rightarrow> callback \<Rightarrow> TextureState" where
  "invoke tex s cb =
     (let s1 = s\<lparr>invoked := invoked s @ [(cb, tex)]\<rparr>
      in case cb of OnLoad k \<Rightarrow> s1 | ReportProgress i \<Rightarrow> reportProgress s1)"

text \<open>
  \<^verbatim>\<open>loadCallbacks.get(url)?.forEach((cb) => cb(texture)); loadCallbacks.delete(url);\<close>
  A \<^verbatim>\<open>Set\<close> is walked in insertion order.
\<close>

definition fireCallbacks :: "string \<Rightarrow> nat \<Rightarrow> TextureState \<Rightarrow> TextureState" where
  "fireCallbacks u tex s =
     (let cbs = (case map_of (loadCallbacks s) u of None \<Rightarrow> [] | Some cs \<Rightarrow> cs);
          s1 = foldl (invoke tex) s cbs
      in s1\<lparr>loadCallbacks := AList.delete u (loadCallbacks s1)\<rparr>)"

text \<open>
  \<^verbatim>\<open>evictOldTextures\<close>. The entries of \<^verbatim>\<open>textureLastUsed\<close> are sorted by timestamp
  (\<^verbatim>\<open>Array.prototype.sort\<close> is stable); the loop visits the first \<open>toRemove\<close> of them
  and disposes and deletes those that have a texture in the cache.
\<close>

definition evictOne :: "TextureState \<Rightarrow> string \<Rightarrow> TextureState" where
  "evictOne s u =
     (case map_of (textureCache s) u of
        None \<Rightarrow> s
      | Some tex \<Rightarrow>
          s\<lparr>disposed := disposed s @ [tex],
            textureCache := AList.delete u (textureCache s),
            textureLastUsed := AList.delete u (textureLastUsed s)\<rparr>)"

definition evictOldTextures :: "TextureState \<Rightarrow> TextureState" where
  "evictOldTextures s =
     (if length (textureCache s) \<le> MAX_CACHE_SIZE then s
      else (let entries = sort_key snd (textureLastUsed s);
                toRemove = length (textureCache s) - MAX_CACHE_SIZE
            in foldl evictOne s (map fst (take toRemove entries))))"

text \<open>
  \<^verbatim>\<open>processQueue\<close> is an async function. This is one invocation from the head of its
  \<^verbatim>\<open>while\<close> loop up to the point where it either suspends at
  \<^verbatim>\<open>await loadImageBitmap(url)\<close>, the fetch started, or leaves the loop and runs the
  final \<^verbatim>\<open>if\<close>. A falsy (empty) URL and a URL already loading are skipped; a URL found
  in the cache gets its callbacks at once. Every texture here has an image, so
  \<^verbatim>\<open>existing && existing.image\<close> is the test that the URL is cached.
\<close>

function processQueue :: "TextureState \<Rightarrow> TextureState" where
  "processQueue s =
     (if activeLoads s < MAX_CONCURRENT_LOADS \<and> loadQueue s \<noteq> []
      then (let u = hd (loadQueue s);
                s1 = s\<lparr>loadQueue := tl (loadQueue s)\<rparr>
            in if u = [] \<or> u \<in> set (loadingUrls s1) then processQueue s1
               else (case map_of (textureCache s1) u of
                       Some existing \<Rightarrow> processQueue (fireCallbacks u existing s1)
                     | None \<Rightarrow>
                         s1\<lparr>activeLoads := activeLoads s1 + 1,
                            loadingUrls := loadingUrls s1 @ [u],
                            fetchStarted := fetchStarted s1 @ [u],
                            inFlight := inFlight s1 @ [u]\<rparr>))
      else (if loadQueue s \<noteq> [] \<and> activeLoads s < MAX_CONCURRENT_LOADS
            then s\<lparr>timers := Suc (timers s)\<rparr> else s))"
  by pat_completeness auto


termination processQueue
proof -
  have inv: "loadQueue (invoke tex s cb) = loadQueue s" for tex s cb
    by (cases cb) (simp_all add: invoke_def reportProgress_def Let_def)
  have fold: "loadQueue (foldl (invoke tex) s cbs) = loadQueue s" for tex s cbs
    by (induction cbs arbitrary: s) (simp_all add: inv)
  have fire: "loadQueue (fireCallbacks u tex s) = loadQueue s" for u tex s
    by (simp add: fireCallbacks_def Let_def fold)
  show ?thesis
    by (relation "measure (\<lambda>s. length (loadQueue s))") (auto simp: fire)
qed

declare processQueue.simps [simp del]

text \<open>
  The invocation resumes when a load of \<open>u\<close> settles, at time \<open>now\<close>: on success the
  texture is created, cached and stamped, the callbacks run, old textures are evicted;
  on failure the error is logged; in both cases the slot is released, and the loop
  goes on.
\<close>

definition loadFinished :: "string \<Rightarrow> bool \<Rightarrow> real \<Rightarrow> TextureState \<Rightarrow> TextureState" where
  "loadFinished u success now s =
     (let s1 = (if success
                then (let texture = texturesCreated s;
                          s2 = s\<lparr>texturesCreated := Suc (texturesCreated s),
                                 textureCache := AList.update u texture (textureCache s),
                                 textureLastUsed := AList.update u now (textureLastUsed s)\<rparr>
                      in evictOldTextures (fireCallbacks u texture s2))
                else s\<lparr>loadErrors := loadErrors s @ [u]\<rparr>);
          s3 = s1\<lparr>activeLoads := activeLoads s1 - 1,
                  loadingUrls := removeAll u (loadingUrls s1),
                  inFlight := remove1 u (inFlight s1)\<rparr>
      in processQueue s3)"

text \<open>The timer of \<^verbatim>\<open>setTimeout(processQueue, 0)\<close> fires.\<close>

definition timerFired :: "TextureState \<Rightarrow> TextureState" where
  "timerFired s = (if timers s = 0 then s else processQueue (s\<lparr>timers := timers s - 1\<rparr>))"

text \<open>\<^verbatim>\<open>loadCallbacks.get(url)!.add(onLoad)\<close>, after creating the set if it is missing.\<close>

definition addCallback :: "string \<Rightarrow> callback \<Rightarrow> TextureState \<Rightarrow> TextureState" where
  "addCallback u cb s =
     (let cbs = (case map_of (loadCallbacks s) u of None \<Rightarrow> [] | Some cs \<Rightarrow> cs);
          cbs' = (if cb \<in> set cbs then cbs else cbs @ [cb])
      in s\<lparr>loadCallbacks := AList.update u cbs' (loadCallbacks s)\<rparr>)"

text \<open>\<^verbatim>\<open>getTexture(item, onLoad?)\<close>, called at time \<open>now\<close>.\<close>

definition getTexture :: "MediaItem \<Rightarrow> callback option \<Rightarrow> real \<Rightarrow> TextureState \<Rightarrow> TextureState" where
  "getTexture item onLoad now s =
     (let u = url item;
          s1 = s\<lparr>textureLastUsed := AList.update u now (textureLastUsed s)\<rparr>
      in case map_of (textureCache s1) u of
           Some existing \<Rightarrow> (case onLoad of None \<Rightarrow> s1 | Some cb \<Rightarrow> invoke existing s1 cb)
         | None \<Rightarrow>
             (let s2 = (case onLoad of None \<Rightarrow> s1 | Some cb \<Rightarrow> addCallback u cb s1)
              in if u \<in> set (loadingUrls s2) \<or> u \<in> set (loadQueue s2) then s2
                 else processQueue (s2\<lparr>loadQueue := loadQueue s2 @ [u]\<rparr>)))"

definition preloadTextures :: "MediaItem list \<Rightarrow> TextureState \<Rightarrow> TextureState" where
  "preloadTextures items s =
     processQueue
       (foldl (\<lambda>t item.
                 if url item \<in> fst ` set (textureCache t) \<or> url item \<in> set (loadingUrls t)
                    \<or> url item \<in> set (loadQueue t)
                 then t else t\<lparr>loadQueue := loadQueue t @ [url item]\<rparr>) s items)"

text \<open>
  \<^verbatim>\<open>preloadAllTextures(items, onProgress)\<close>. The loop reads the clock once per item
  that it hands to \<^verbatim>\<open>getTexture\<close>: \<open>clock i\<close> is the reading for the item number \<open>i\<close>.
\<close>

definition preloadItem :: "(nat \<Rightarrow> real) \<Rightarrow> TextureState \<Rightarrow> nat \<times> MediaItem \<Rightarrow> TextureState" where
  "preloadItem clock s p =
     (case p of (i, item) \<Rightarrow>
        if url item \<in> fst ` set (textureCache s) then reportProgress s
        else getTexture item (Some (ReportProgress i)) (clock i) s)"

definition preloadAllTextures :: "MediaItem list \<Rightarrow> (nat \<Rightarrow> real) \<Rightarrow> TextureState \<Rightarrow> TextureState" where
  "preloadAllTextures items clock s =
     (let s0 = s\<lparr>pl_total := length items, pl_loaded := 0, pl_progress := [], pl_resolved := False\<rparr>
      in if length items = 0 then s0\<lparr>pl_progress := [1], pl_resolved := True\<rparr>
         else foldl (preloadItem clock) s0 (zip [0 ..< length items] items))"

text \<open>
  \<^verbatim>\<open>getCachedTexture(url)\<close> returns the cached texture or \<^verbatim>\<open>null\<close>. It writes nothing:
  the state is not among its results.
\<close>

definition getCachedTexture :: "string \<Rightarrow> TextureState \<Rightarrow> nat option" where
  "getCachedTexture u s = map_of (textureCache s) u"

text \<open>
  \<^verbatim>\<open>clearTextureCache()\<close> disposes of every cached texture and empties the maps, the
  queue and the set of loading URLs, and resets the counter of active loads. It does
  not cancel a load: the invocations of \<^verbatim>\<open>processQueue\<close> suspended at their \<^verbatim>\<open>await\<close>
  resume when their loads settle.
\<close>

definition clearTextureCache :: "TextureState \<Rightarrow> TextureState" where
  "clearTextureCache s =
     s\<lparr>disposed := disposed s @ map snd (textureCache s),
       textureCache := [], loadCallbacks := [], textureLastUsed := [],
       loadQueue := [], activeLoads := 0, loadingUrls := []\<rparr>"

text \<open>A media item with the given URL.\<close>

definition mediaAt :: "string \<Rightarrow> MediaItem" where
  "mediaAt u = \<lparr>url = u, width = 1, height = 1, title = None\<rparr>"


text \<open>
  What can happen to the module, one event at a time on the single thread: a request,
  a batch preload, a load of a URL settling (it can only settle while it is in
  flight), the timer firing, the cache being cleared.
\<close>

datatype event =
    Request MediaItem "callback option" real
  | Preload "MediaItem list"
  | Finished string bool real
  | Timer
  | Clear

fun applyEvent :: "TextureState \<Rightarrow> event \<Rightarrow> TextureState" where
  "applyEvent s (Request item onLoad now) = getTexture item onLoad now s"
| "applyEvent s (Preload items) = preloadTextures items s"
| "applyEvent s (Finished u success now) =
     (if u \<in> set (inFlight s) then loadFinished u success now s else s)"
| "applyEvent s Timer = timerFired s"
| "applyEvent s Clear = clearTextureCache s"

definition runEvents :: "event list \<Rightarrow> TextureState \<Rightarrow> TextureState" where
  "runEvents evs s = foldl applyEvent s evs"

text \<open>The events that end the wait for \<open>u\<close>: a load of \<open>u\<close> settles, or the cache is cleared.\<close>

fun settles :: "string \<Rightarrow> event \<Rightarrow> bool" where
  "settles u (Finished v success now) = (v = u)"
| "settles u _ = False"

fun clears :: "event \<Rightarrow> bool" where
  "clears Clear = True"
| "clears _ = False"

text \<open>
  The URL \<open>u\<close> is awaited: not cached, once in the queue or once among the loading URLs,
  with the callbacks \<open>cbs\<close> first among those registered for it. \<open>base\<close> fetches had been
  started for it when it was requested and \<open>was\<close> tells whether it was loading then: if
  so it still is, and if not one more fetch has been started exactly if it is loading.
\<close>

definition awaited :: "string \<Rightarrow> nat \<Rightarrow> bool \<Rightarrow> callback list \<Rightarrow> TextureState \<Rightarrow> bool" where
  "awaited u base was cbs s \<longleftrightarrow>
     u \<noteq> [] \<and> map_of (textureCache s) u = None \<and>
     count_list (loadQueue s @ loadingUrls s) u = 1 \<and>
     (was \<longrightarrow> u \<in> set (loadingUrls s)) \<and>
     count_list (fetchStarted s) u
       = base + (if u \<in> set (loadingUrls s) \<and> \<not> was then 1 else 0) \<and>
     (\<exists>more. map_of (loadCallbacks s) u = Some (cbs @ more))"

text \<open>
  What holds in every state the module reaches: no URL is pending twice, and every URL
  marked as loading has a load in flight.
\<close>

definition pending_ok :: "TextureState \<Rightarrow> bool" where
  "pending_ok s \<longleftrightarrow>
     distinct (loadQueue s @ loadingUrls s) \<and> set (loadingUrls s) \<subseteq> set (inFlight s)"

text \<open>Sequential requests: each URL is requested at \<open>t\<close> and its load succeeds at \<open>t + 1\<close>.\<close>

fun sequentialLoads :: "real \<Rightarrow> string list \<Rightarrow> TextureState \<Rightarrow> TextureState" where
  "sequentialLoads t [] s = s"
| "sequentialLoads t (u # us) s =
     sequentialLoads (t + 2) us (loadFinished u True (t + 1) (getTexture (mediaAt u) None t s))"

text \<open>The URLs \<open>u0, u1, \<dots>\<close> of the scenarios.\<close>

definition urlNo :: "nat \<Rightarrow> string" where
  "urlNo i = CHR ''u'' # string_of_nat i"

text \<open>
  One sequential load on a module with an empty queue, a free slot and no callbacks, for
  a URL that is new to the cache and to the timestamps: the state at the point where
  \<^verbatim>\<open>processQueue\<close> calls \<^verbatim>\<open>evictOldTextures\<close>.
\<close>

definition roundInserted :: "string \<Rightarrow> real \<Rightarrow> TextureState \<Rightarrow> TextureState" where
  "roundInserted u t' s =
     s\<lparr>textureCache := textureCache s @ [(u, texturesCreated s)],
       textureLastUsed := textureLastUsed s @ [(u, t')],
       texturesCreated := Suc (texturesCreated s),
       fetchStarted := fetchStarted s @ [u],
       inFlight := inFlight s @ [u],
       activeLoads := activeLoads s + 1,
       loadingUrls := loadingUrls s @ [u],
       loadCallbacks := []\<rparr>"


section \<open>Chunk keys are injective\<close>

lemma of_char_digit_char: "d < 10 \<Longrightarrow> (of_char (digit_char d) :: nat) = 48 + d"
  by (simp add: digit_char_def)

lemma digit_char_inj: "a < 10 \<Longrightarrow> b < 10 \<Longrightarrow> digit_char a = digit_char b \<Longrightarrow> a = b"
proof -
  assume "a < 10" "b < 10" "digit_char a = digit_char b"
  then have "48 + a = 48 + b"
    using of_char_digit_char [of a] of_char_digit_char [of b] by metis
  then show "a = b" by (simp only: add_left_cancel)
qed

lemma string_of_nat_nonempty: "string_of_nat n \<noteq> []"
  by (subst string_of_nat.simps) simp

lemma string_of_nat_digits: "set (string_of_nat n) \<subseteq> digit_char ` {0..<10}"
proof (induction n rule: string_of_nat.induct)
  case (1 n)
  show ?case
  proof (cases "n < 10")
    case True
    then show ?thesis by (subst string_of_nat.simps) simp
  next
    case False
    have "n mod 10 < 10" by simp
    with False 1 show ?thesis by (subst string_of_nat.simps) auto
  qed
qed

lemma digit_char_not_sep: "d < 10 \<Longrightarrow> digit_char d \<noteq> CHR '','' \<and> digit_char d \<noteq> CHR ''-''"
proof -
  assume "d < 10"
  then have "(of_char (digit_char d) :: nat) \<ge> 48"
    by (simp only: of_char_digit_char)
  moreover have "(of_char (CHR '','') :: nat) = 44" "(of_char (CHR ''-'') :: nat) = 45"
    by simp_all
  ultimately show ?thesis by force
qed

lemma string_of_nat_no_sep: "CHR '','' \<notin> set (string_of_nat n)" "CHR ''-'' \<notin> set (string_of_nat n)"
  using string_of_nat_digits [of n] digit_char_not_sep by fastforce+

lemma string_of_nat_inj: "string_of_nat n = string_of_nat m \<Longrightarrow> n = m"
proof (induction n arbitrary: m rule: string_of_nat.induct)
  case (1 n)
  note eq = "1.prems"
  show ?case
  proof (cases "n < 10")
    case n: True
    show ?thesis
    proof (cases "m < 10")
      case True
      with n eq show ?thesis
        by (simp add: string_of_nat.simps [of n] string_of_nat.simps [of m] digit_char_inj)
    next
      case False
      with n eq string_of_nat_nonempty [of "m div 10"] show ?thesis
        by (simp add: string_of_nat.simps [of n] string_of_nat.simps [of m])
    qed
  next
    case n: False
    show ?thesis
    proof (cases "m < 10")
      case True
      with n eq string_of_nat_nonempty [of "n div 10"] show ?thesis
        by (simp add: string_of_nat.simps [of n] string_of_nat.simps [of m])
    next
      case False
      with n eq have a: "string_of_nat (n div 10) = string_of_nat (m div 10)"
        and b: "digit_char (n mod 10) = digit_char (m mod 10)"
        by (simp_all add: string_of_nat.simps [of n] string_of_nat.simps [of m])
      have "n div 10 = m div 10" using "1.IH" [OF n a] .
      moreover have "n mod 10 = m mod 10" using b by (intro digit_char_inj) simp_all
      ultimately show ?thesis by (metis div_mult_mod_eq)
    qed
  qed
qed

lemma string_of_int_no_comma: "CHR '','' \<notin> set (string_of_int i)"
  by (simp add: string_of_int_def string_of_nat_no_sep)

lemma string_of_int_inj: "string_of_int i = string_of_int j \<Longrightarrow> i = j"
proof -
  assume eq: "string_of_int i = string_of_int j"
  have hd: "\<And>n. hd (string_of_nat n) \<noteq> CHR ''-''"
    using string_of_nat_no_sep(2) string_of_nat_nonempty by (metis hd_in_set)
  have ne: "\<And>n. string_of_nat n \<noteq> CHR ''-'' # t" for t
    using hd by (metis list.sel(1))
  show ?thesis
  proof (cases "i < 0")
    case i: True
    show ?thesis
    proof (cases "j < 0")
      case True
      with i eq have "nat (- i) = nat (- j)" by (auto simp: string_of_int_def dest: string_of_nat_inj)
      with i True show ?thesis by simp
    next
      case False
      with i eq ne [of "nat j"] show ?thesis by (simp add: string_of_int_def) metis
    qed
  next
    case i: False
    show ?thesis
    proof (cases "j < 0")
      case True
      with i eq ne [of "nat i"] show ?thesis by (simp add: string_of_int_def)
    next
      case False
      with i eq have "nat i = nat j" by (auto simp: string_of_int_def dest: string_of_nat_inj)
      with i False show ?thesis by simp
    qed
  qed
qed

lemma split_at_comma:
  assumes "CHR '','' \<notin> set a" "CHR '','' \<notin> set a'" "a @ CHR '','' # r = a' @ CHR '','' # r'"
  shows "a = a' \<and> r = r'"
proof -
  have "takeWhile (\<lambda>c. c \<noteq> CHR '','') (a @ CHR '','' # r) = a"
    using assms(1) by (subst takeWhile_append2) auto
  moreover have "takeWhile (\<lambda>c. c \<noteq> CHR '','') (a' @ CHR '','' # r') = a'"
    using assms(2) by (subst takeWhile_append2) auto
  ultimately have "a = a'" using assms(3) by simp
  with assms(3) show ?thesis by simp
qed

lemma chunkKey_inj:
  "chunkKey x y z = chunkKey x' y' z' \<longleftrightarrow> x = x' \<and> y = y' \<and> z = z'"
proof
  assume eq: "chunkKey x y z = chunkKey x' y' z'"
  then have 1: "string_of_int x = string_of_int x'
      \<and> string_of_int y @ CHR '','' # string_of_int z = string_of_int y' @ CHR '','' # string_of_int z'"
    unfolding chunkKey_def by (intro split_at_comma) (simp_all add: string_of_int_no_comma)
  then have "string_of_int y = string_of_int y' \<and> string_of_int z = string_of_int z'"
    by (intro split_at_comma) (simp_all add: string_of_int_no_comma)
  with 1 show "x = x' \<and> y = y' \<and> z = z'" by (simp add: string_of_int_inj)
qed simp

lemma chunkKey_nonempty: "chunkKey x y z \<noteq> []"
  by (simp add: chunkKey_def)

section \<open>The neighbourhood of the camera\<close>

lemma offsetCandidates_product:
  "offsetCandidates m =
     map (\<lambda>(x, y, z). \<lparr>dx = x, dy = y, dz = z\<rparr>)
       (List.product [- m .. m] (List.product [- m .. m] [- m .. m]))"
  by (simp add: offsetCandidates_def List.product_concat_map map_concat comp_def)

lemma distinct_offsetCandidates: "distinct (offsetCandidates m)"
  unfolding offsetCandidates_product
  by (auto simp: distinct_map distinct_product inj_on_def)

lemma set_offsetCandidates:
  "set (offsetCandidates m) = {off. chebyshev off \<le> m}"
proof (intro set_eqI iffI)
  fix off assume "off \<in> set (offsetCandidates m)"
  then show "off \<in> {off. chebyshev off \<le> m}"
    unfolding offsetCandidates_product by (auto simp: chebyshev_def)
next
  fix off :: ChunkOffset assume "off \<in> {off. chebyshev off \<le> m}"
  then have b: "\<bar>dx off\<bar> \<le> m" "\<bar>dy off\<bar> \<le> m" "\<bar>dz off\<bar> \<le> m"
    by (auto simp: chebyshev_def)
  have "off = (\<lambda>(x, y, z). \<lparr>dx = x, dy = y, dz = z\<rparr>) (dx off, dy off, dz off)"
    by simp
  moreover have "(dx off, dy off, dz off)
      \<in> set (List.product [- m .. m] (List.product [- m .. m] [- m .. m]))"
    using b by auto
  ultimately show "off \<in> set (offsetCandidates m)"
    unfolding offsetCandidates_product by (metis (no_types, lifting) image_eqI set_map)
qed

lemma filter_offsetCandidates:
  "filter (\<lambda>off. chebyshev off \<le> m) (offsetCandidates m) = offsetCandidates m"
  by (rule filter_True) (simp add: set_offsetCandidates)

lemma set_computeChunkOffsets: "set (computeChunkOffsets m) = {off. chebyshev off \<le> m}"
  by (simp add: computeChunkOffsets_def filter_offsetCandidates set_offsetCandidates)

lemma distinct_computeChunkOffsets: "distinct (computeChunkOffsets m)"
  by (simp add: computeChunkOffsets_def filter_offsetCandidates distinct_offsetCandidates)

lemma sorted_computeChunkOffsets: "sorted (map chebyshev (computeChunkOffsets m))"
  by (simp add: computeChunkOffsets_def)

lemma initialChunks_centre: "initialChunks = chunksAround 0 0 0"
  by (simp add: initialChunks_def chunksAround_def)

lemma initialChunks_offsets:
  "map (\<lambda>c. \<lparr>dx = chunk_cx c, dy = chunk_cy c, dz = chunk_cz c\<rparr>) initialChunks = CHUNK_OFFSETS"
proof -
  have "(\<lambda>off :: ChunkOffset. \<lparr>dx = dx off, dy = dy off, dz = dz off\<rparr>) = (\<lambda>off. off)"
    by (rule ext) simp
  then show ?thesis by (simp add: initialChunks_def comp_def)
qed

lemma chunkCoord_rest: "chunkCoord 0 = 0" "chunkCoord INITIAL_CAMERA_Z = 0"
  by (simp_all add: chunkCoord_def CHUNK_SIZE_def INITIAL_CAMERA_Z_def)

lemma chunkFrame_rest:
  assumes "chunks s = initialChunks"
      and "pendingChunk s = None \<or> pendingChunk s = Some (0, 0, 0)"
  shows "chunks (chunkFrame (0, 0, INITIAL_CAMERA_Z) False 0 t s) = initialChunks
       \<and> (pendingChunk (chunkFrame (0, 0, INITIAL_CAMERA_Z) False 0 t s) = None
          \<or> pendingChunk (chunkFrame (0, 0, INITIAL_CAMERA_Z) False 0 t s) = Some (0, 0, 0))"
  using assms
  by (auto simp: chunkFrame_def Let_def chunkCoord_rest initialChunks_centre
      split: option.splits)

lemma restFrames_chunks:
  assumes "chunks s = initialChunks"
      and "pendingChunk s = None \<or> pendingChunk s = Some (0, 0, 0)"
  shows "chunks (restFrames ts s) = initialChunks"
  using assms
proof (induction ts arbitrary: s)
  case Nil
  then show ?case by (simp add: restFrames_def)
next
  case (Cons t ts)
  have "chunks (restFrames ts (chunkFrame (0, 0, INITIAL_CAMERA_Z) False 0 t s)) = initialChunks"
    using chunkFrame_rest [OF Cons.prems] by (intro Cons.IH) auto
  then show ?case by (simp add: restFrames_def)
qed

text \<open>
  Claim C9. With the camera at rest at the origin, the active chunk set is the
  neighbourhood-offset list recentred on \<open>(0, 0, 0)\<close>: after the mount effect and any
  number of frames at rest the chunk list is \<open>chunksAround 0 0 0\<close>, whose coordinates
  are \<open>CHUNK_OFFSETS\<close>; that list holds, each once, exactly the offsets whose Chebyshev
  distance is at most \<open>RENDER_DISTANCE + CHUNK_FADE_MARGIN\<close>, in ascending order of
  Chebyshev distance.
\<close>

theorem active_chunks_at_origin:
  "chunks (restFrames ts (mountChunks createInitialState)) = chunksAround 0 0 0
   \<and> map (\<lambda>c. \<lparr>dx = chunk_cx c, dy = chunk_cy c, dz = chunk_cz c\<rparr>) (chunksAround 0 0 0)
       = CHUNK_OFFSETS
   \<and> set CHUNK_OFFSETS = {off. chebyshev off \<le> RENDER_DISTANCE + CHUNK_FADE_MARGIN}
   \<and> distinct CHUNK_OFFSETS
   \<and> sorted (map chebyshev CHUNK_OFFSETS)"
proof -
  have "chunks (restFrames ts (mountChunks createInitialState)) = initialChunks"
    by (rule restFrames_chunks) (simp_all add: mountChunks_def createInitialState_def)
  then show ?thesis
    using initialChunks_offsets
    by (simp add: initialChunks_centre [symmetric] CHUNK_OFFSETS_def set_computeChunkOffsets
        distinct_computeChunkOffsets sorted_computeChunkOffsets)
qed

section \<open>Throttled chunk updates\<close>

lemma keyOf_inj: "keyOf c = keyOf d \<longleftrightarrow> c = d"
  by (cases c, cases d) (auto simp: keyOf_def chunkKey_inj)

lemma frameStep_unfold:
  "frameStep s f =
     (let c = frameCoord f;
          s1 = (if keyOf c \<noteq> lastChunkKey s
                then s\<lparr>pendingChunk := Some c, lastChunkKey := keyOf c\<rparr> else s)
      in case pendingChunk s1 of
           None \<Rightarrow> s1
         | Some u \<Rightarrow>
             if f_now f - lastChunkUpdate s1 \<ge> frameThrottle f
             then s1\<lparr>pendingChunk := None, lastChunkUpdate := f_now f,
                     chunks := chunksAround (fst u) (fst (snd u)) (snd (snd u)),
                     applied := applied s1 @ [u]\<rparr>
             else s1)"
  by (auto simp: frameStep_def chunkFrame_def frameCoord_def keyOf_def frameThrottle_def
      shouldThrottleUpdate_def Let_def split: option.splits prod.splits)

lemma marker_ok_frameStep: "marker_ok s \<Longrightarrow> marker_ok (frameStep s f)"
  by (auto simp: marker_ok_def frameStep_unfold Let_def split: option.splits)

lemma marker_ok_runFrames: "marker_ok s \<Longrightarrow> marker_ok (runFrames fs s)"
  unfolding runFrames_def
  by (induction fs arbitrary: s) (auto simp: marker_ok_frameStep)

lemma marker_ok_initial: "marker_ok (mountChunks createInitialState)"
  by (simp add: marker_ok_def mountChunks_def createInitialState_def)

text \<open>A frame before the interval has elapsed: the marker is overwritten, nothing is applied.\<close>

lemma frameStep_early:
  assumes "f_now f - lastChunkUpdate s < frameThrottle f"
  shows "frameStep s f =
           (if keyOf (frameCoord f) \<noteq> lastChunkKey s
            then s\<lparr>pendingChunk := Some (frameCoord f), lastChunkKey := keyOf (frameCoord f)\<rparr>
            else s)"
  using assms by (auto simp: frameStep_unfold Let_def split: option.splits)

lemma frameStep_late:
  assumes ok: "marker_ok s" and late: "f_now f - lastChunkUpdate s \<ge> frameThrottle f"
    and moved: "keyOf (frameCoord f) \<noteq> lastChunkKey s \<or> pendingChunk s \<noteq> None"
  shows "frameStep s f =
           s\<lparr>pendingChunk := None, lastChunkKey := keyOf (frameCoord f), lastChunkUpdate := f_now f,
              chunks := chunksAround (fst (frameCoord f)) (fst (snd (frameCoord f))) (snd (snd (frameCoord f))),
              applied := applied s @ [frameCoord f]\<rparr>"
proof (cases "keyOf (frameCoord f) \<noteq> lastChunkKey s")
  case True
  with late show ?thesis by (simp add: frameStep_unfold Let_def)
next
  case False
  with moved obtain c where c: "pendingChunk s = Some c" by auto
  with ok False have "keyOf c = keyOf (frameCoord f)" by (simp add: marker_ok_def)
  then have "c = frameCoord f" by (simp only: keyOf_inj)
  with c False late show ?thesis by (simp add: frameStep_unfold Let_def)
qed

lemma frameStep_applied_only_late:
  "applied (frameStep s f) \<noteq> applied s \<Longrightarrow> f_now f - lastChunkUpdate s \<ge> frameThrottle f"
  by (auto simp: frameStep_unfold Let_def split: option.splits if_splits)

lemma runFrames_early:
  assumes "\<forall>g \<in> set gs. f_now g - lastChunkUpdate s < frameThrottle g"
  shows "applied (runFrames gs s) = applied s \<and> chunks (runFrames gs s) = chunks s
       \<and> lastChunkUpdate (runFrames gs s) = lastChunkUpdate s
       \<and> lastChunkKey (runFrames gs s) = (if gs = [] then lastChunkKey s else keyOf (frameCoord (last gs)))
       \<and> (pendingChunk (runFrames gs s) = None \<longleftrightarrow>
            pendingChunk s = None \<and> (\<forall>g \<in> set gs. keyOf (frameCoord g) = lastChunkKey s))"
  using assms
proof (induction gs arbitrary: s)
  case Nil
  then show ?case by (simp add: runFrames_def)
next
  case (Cons g gs)
  let ?s = "frameStep s g"
  have e: "f_now g - lastChunkUpdate s < frameThrottle g" using Cons.prems by simp
  have st: "?s = (if keyOf (frameCoord g) \<noteq> lastChunkKey s
            then s\<lparr>pendingChunk := Some (frameCoord g), lastChunkKey := keyOf (frameCoord g)\<rparr>
            else s)"
    by (rule frameStep_early [OF e])
  have lu: "lastChunkUpdate ?s = lastChunkUpdate s" by (simp add: st)
  have "\<forall>h \<in> set gs. f_now h - lastChunkUpdate ?s < frameThrottle h"
    using Cons.prems lu by simp
  from Cons.IH [OF this] have ih:
    "applied (runFrames gs ?s) = applied ?s" "chunks (runFrames gs ?s) = chunks ?s"
    "lastChunkUpdate (runFrames gs ?s) = lastChunkUpdate ?s"
    "lastChunkKey (runFrames gs ?s) = (if gs = [] then lastChunkKey ?s else keyOf (frameCoord (last gs)))"
    "pendingChunk (runFrames gs ?s) = None \<longleftrightarrow>
            pendingChunk ?s = None \<and> (\<forall>g \<in> set gs. keyOf (frameCoord g) = lastChunkKey ?s)"
    by blast+
  have r: "runFrames (g # gs) s = runFrames gs ?s" by (simp add: runFrames_def)
  show ?case
  proof (cases "keyOf (frameCoord g) \<noteq> lastChunkKey s")
    case True
    then have s': "?s = s\<lparr>pendingChunk := Some (frameCoord g), lastChunkKey := keyOf (frameCoord g)\<rparr>"
      by (simp add: st)
    show ?thesis unfolding r using ih True by (simp add: s')
  next
    case False
    then have s': "?s = s" by (simp add: st)
    show ?thesis unfolding r using ih False by (simp add: s')
  qed
qed

lemma throttle_values:
  "frameThrottle h = (if \<bar>f_vz h\<bar> > 1 then 500 else if f_isZooming h then 400 else 100)"
  "getChunkUpdateThrottleMs z v \<le> getChunkUpdateThrottleMs z (max v w)"
  "getChunkUpdateThrottleMs False v \<le> getChunkUpdateThrottleMs True v"
  "100 \<le> getChunkUpdateThrottleMs z v" "getChunkUpdateThrottleMs z v \<le> 500"
  by (auto simp: getChunkUpdateThrottleMs_def frameThrottle_def max_def)

lemma keyOf_nonempty: "keyOf c \<noteq> []" "[] \<noteq> keyOf c"
  using chunkKey_nonempty [of "fst c" "fst (snd c)" "snd (snd c)"] by (auto simp: keyOf_def)

lemma frameStep_applied:
  assumes "marker_ok s"
  shows "applied (frameStep s h) =
           (if frameThrottle h \<le> f_now h - lastChunkUpdate s
               \<and> (keyOf (frameCoord h) \<noteq> lastChunkKey s \<or> pendingChunk s \<noteq> None)
            then applied s @ [frameCoord h] else applied s)"
proof (cases "frameThrottle h \<le> f_now h - lastChunkUpdate s")
  case late: True
  show ?thesis
  proof (cases "keyOf (frameCoord h) \<noteq> lastChunkKey s \<or> pendingChunk s \<noteq> None")
    case True
    with late show ?thesis by (simp add: frameStep_late [OF assms late True])
  next
    case False
    then have "keyOf (frameCoord h) = lastChunkKey s" "pendingChunk s = None" by blast+
    then show ?thesis by (simp add: frameStep_unfold Let_def)
  qed
next
  case False
  then have "f_now h - lastChunkUpdate s < frameThrottle h" by simp
  from frameStep_early [OF this] False show ?thesis by simp
qed

lemma runFrames_snoc: "runFrames (gs @ [f]) s = frameStep (runFrames gs s) f"
  by (simp add: runFrames_def)

lemma runFrames_marker:
  assumes ok: "marker_ok s"
      and early: "\<forall>g \<in> set gs. f_now g - lastChunkUpdate s < frameThrottle g"
  shows "pendingChunk (runFrames gs s) =
           (if pendingChunk s = None \<and> list_all (\<lambda>g. keyOf (frameCoord g) = lastChunkKey s) gs
            then None
            else if gs = [] then pendingChunk s else Some (frameCoord (last gs)))"
proof (cases "pendingChunk (runFrames gs s)")
  case None
  with runFrames_early [OF early] show ?thesis by (auto simp: list_all_iff)
next
  case (Some c)
  have "marker_ok (runFrames gs s)" by (rule marker_ok_runFrames [OF ok])
  with Some have k: "keyOf c = lastChunkKey (runFrames gs s)" by (simp add: marker_ok_def)
  show ?thesis
  proof (cases "gs = []")
    case True
    with Some show ?thesis by (simp add: runFrames_def)
  next
    case False
    with k runFrames_early [OF early] have "keyOf c = keyOf (frameCoord (last gs))" by simp
    then have "c = frameCoord (last gs)" by (simp only: keyOf_inj)
    with Some False runFrames_early [OF early] show ?thesis by (auto simp: list_all_iff)
  qed
qed

text \<open>
  Claim C8, as amended. From any state the frame loop reaches: frames at which less
  than the current throttle interval has elapsed since the last applied update apply
  nothing; each boundary crossing among them only overwrites the one pending marker,
  which then names the chunk of the latest frame. The first frame at which the interval
  has elapsed applies the chunk the camera is in at that frame, clears the marker and
  restarts the interval. On any single frame an update is applied exactly when the
  interval has elapsed and a crossing or a marker is pending. The interval of a frame
  is 500 ms when its zoom speed (the magnitude of the \<open>z\<close> velocity it passes, taken
  after smoothing) exceeds 1, otherwise 400 ms when its \<^verbatim>\<open>isZooming\<close> flag (taken
  before smoothing) is set, otherwise 100 ms. For a fixed flag the interval does not
  decrease as the zoom speed grows, for a fixed zoom speed it is not shorter with the
  flag set than without, and it always lies between 100 ms and 500 ms.
\<close>

theorem throttle_last_write_wins:
  assumes reach: "s = runFrames fs (mountChunks createInitialState)"
      and early: "\<forall>g \<in> set gs. f_now g - lastChunkUpdate s < frameThrottle g"
      and late: "frameThrottle f \<le> f_now f - lastChunkUpdate s"
      and moved: "pendingChunk s \<noteq> None
                  \<or> (\<exists>g \<in> set (gs @ [f]). keyOf (frameCoord g) \<noteq> lastChunkKey s)"
  shows "applied (runFrames gs s) = applied s
       \<and> chunks (runFrames gs s) = chunks s
       \<and> pendingChunk (runFrames gs s) =
           (if pendingChunk s = None \<and> list_all (\<lambda>g. keyOf (frameCoord g) = lastChunkKey s) gs
            then None
            else if gs = [] then pendingChunk s else Some (frameCoord (last gs)))
       \<and> applied (runFrames (gs @ [f]) s) = applied s @ [frameCoord f]
       \<and> chunks (runFrames (gs @ [f]) s) =
           chunksAround (fst (frameCoord f)) (fst (snd (frameCoord f))) (snd (snd (frameCoord f)))
       \<and> pendingChunk (runFrames (gs @ [f]) s) = None
       \<and> lastChunkUpdate (runFrames (gs @ [f]) s) = f_now f
       \<and> applied (frameStep s h) =
           (if frameThrottle h \<le> f_now h - lastChunkUpdate s
               \<and> (keyOf (frameCoord h) \<noteq> lastChunkKey s \<or> pendingChunk s \<noteq> None)
            then applied s @ [frameCoord h] else applied s)
       \<and> frameThrottle h =
           (if \<bar>f_vz h\<bar> > 1 then 500 else if f_isZooming h then 400 else 100)
       \<and> getChunkUpdateThrottleMs z v \<le> getChunkUpdateThrottleMs z (max v w)
       \<and> getChunkUpdateThrottleMs False v \<le> getChunkUpdateThrottleMs True v
       \<and> 100 \<le> getChunkUpdateThrottleMs z v
       \<and> getChunkUpdateThrottleMs z v \<le> 500"
proof -
  have ok: "marker_ok s"
    unfolding reach by (rule marker_ok_runFrames [OF marker_ok_initial])
  let ?t = "runFrames gs s"
  note e = runFrames_early [OF early]
  have ok_t: "marker_ok ?t" by (rule marker_ok_runFrames [OF ok])
  have late_t: "frameThrottle f \<le> f_now f - lastChunkUpdate ?t" using late e by simp
  have moved_t: "keyOf (frameCoord f) \<noteq> lastChunkKey ?t \<or> pendingChunk ?t \<noteq> None"
  proof (cases "pendingChunk ?t = None")
    case True
    with e have all: "pendingChunk s = None" "\<forall>g \<in> set gs. keyOf (frameCoord g) = lastChunkKey s"
      by simp_all
    with moved have f: "keyOf (frameCoord f) \<noteq> lastChunkKey s" by auto
    have "lastChunkKey ?t = lastChunkKey s"
      using e all by (cases "gs = []") simp_all
    with f show ?thesis by simp
  qed simp
  note fin = frameStep_late [OF ok_t late_t moved_t]
  have a: "applied (runFrames gs s) = applied s" and b: "chunks (runFrames gs s) = chunks s"
    using e by simp_all
  have c: "applied (runFrames (gs @ [f]) s) = applied s @ [frameCoord f]"
    unfolding runFrames_snoc fin using a by simp
  have d: "chunks (runFrames (gs @ [f]) s) =
           chunksAround (fst (frameCoord f)) (fst (snd (frameCoord f))) (snd (snd (frameCoord f)))"
    "pendingChunk (runFrames (gs @ [f]) s) = None"
    "lastChunkUpdate (runFrames (gs @ [f]) s) = f_now f"
    unfolding runFrames_snoc fin by simp_all
  show ?thesis
    using a b c d runFrames_marker [OF ok early] frameStep_applied [OF ok, of h]
      throttle_values(1) [of h] throttle_values(2) [of z v w] throttle_values(3) [of v]
      throttle_values(4) [of z v] throttle_values(5) [of z v]
    by (simp only: simp_thms)
qed

lemmas frame_eval =
  runFrames_def frameStep_unfold Let_def frameCoord_def chunkCoord_def CHUNK_SIZE_def
  keyOf_inj keyOf_nonempty frameThrottle_def getChunkUpdateThrottleMs_def mountChunks_def
  createInitialState_def

text \<open>
  Witness: after a first frame at rest near a chunk corner at 1000 ms, the camera
  crosses into chunk \<open>(1, 0, 0)\<close> at 1016 ms and, zooming at speed 1/2, into
  \<open>(1, 1, 0)\<close> at 1350 ms, which is past the baseline interval but inside the 400 ms
  one of that frame; the frame at 1400 ms applies \<open>(1, 1, 0)\<close> alone.
\<close>

theorem throttle_last_write_wins_witness:
  "applied (runFrames
      [\<lparr>f_basePos = (1101/10, 2199/20, 50), f_isZooming = False, f_vz = 0, f_now = 1016\<rparr>,
       \<lparr>f_basePos = (1103/10, 2201/20, 50), f_isZooming = True, f_vz = 1/2, f_now = 1350\<rparr>,
       \<lparr>f_basePos = (1103/10, 2201/20, 50), f_isZooming = True, f_vz = 1/2, f_now = 1400\<rparr>]
      (runFrames
        [\<lparr>f_basePos = (1099/10, 1099/10, 50), f_isZooming = False, f_vz = 0, f_now = 1000\<rparr>]
        (mountChunks createInitialState)))
   = [(0, 0, 0), (1, 1, 0)]"
proof -
  define s where "s = runFrames
        [\<lparr>f_basePos = (1099/10, 1099/10, 50), f_isZooming = False, f_vz = 0, f_now = 1000\<rparr>]
        (mountChunks createInitialState)"
  define g1 where "g1 = \<lparr>f_basePos = (1101/10, 2199/20, 50), f_isZooming = False, f_vz = 0, f_now = 1016\<rparr>"
  define g2 where "g2 = \<lparr>f_basePos = (1103/10, 2201/20, 50), f_isZooming = True, f_vz = 1/2, f_now = 1350\<rparr>"
  define f where "f = \<lparr>f_basePos = (1103/10, 2201/20, 50), f_isZooming = True, f_vz = 1/2, f_now = 1400\<rparr>"
  have s: "applied s = [(0, 0, 0)]" "lastChunkUpdate s = 1000" "lastChunkKey s = keyOf (0, 0, 0)"
    unfolding s_def by (simp_all add: frame_eval)
  have early: "\<forall>g \<in> set [g1, g2]. f_now g - lastChunkUpdate s < frameThrottle g"
    by (simp add: s g1_def g2_def frameThrottle_def getChunkUpdateThrottleMs_def)
  have late: "frameThrottle f \<le> f_now f - lastChunkUpdate s"
    by (simp add: s f_def frameThrottle_def getChunkUpdateThrottleMs_def)
  have moved: "pendingChunk s \<noteq> None
      \<or> (\<exists>g \<in> set ([g1, g2] @ [f]). keyOf (frameCoord g) \<noteq> lastChunkKey s)"
    by (simp add: s g1_def frameCoord_def chunkCoord_def CHUNK_SIZE_def keyOf_inj)
  have "applied (runFrames ([g1, g2] @ [f]) s) = applied s @ [frameCoord f]"
    using throttle_last_write_wins [OF s_def early late moved] by (simp only: simp_thms)
  then show ?thesis
    unfolding s g1_def g2_def f_def s_def [symmetric]
    by (simp add: frameCoord_def chunkCoord_def CHUNK_SIZE_def)
qed

text \<open>
  The claim as stated fails: after four seconds at rest the camera crosses two chunk
  boundaries 16 ms apart, well inside the 100 ms interval, and the intermediate chunk
  \<open>(1, 0, 0)\<close> is applied on the very frame of the first crossing, before the final
  chunk \<open>(1, 1, 0)\<close>.
\<close>

theorem throttle_intermediate_applied:
  "applied (runFrames
      [\<lparr>f_basePos = (1101/10, 2199/20, 50), f_isZooming = False, f_vz = 0, f_now = 5000\<rparr>,
       \<lparr>f_basePos = (1103/10, 2201/20, 50), f_isZooming = False, f_vz = 0, f_now = 5016\<rparr>,
       \<lparr>f_basePos = (1103/10, 2201/20, 50), f_isZooming = False, f_vz = 0, f_now = 5116\<rparr>]
      (runFrames
        [\<lparr>f_basePos = (1099/10, 1099/10, 50), f_isZooming = False, f_vz = 0, f_now = 1000\<rparr>]
        (mountChunks createInitialState)))
   = [(0, 0, 0), (1, 0, 0), (1, 1, 0)]
   \<and> (5016 :: real) - 5000 < getChunkUpdateThrottleMs False \<bar>0\<bar>"
  by (simp add: frame_eval)

section \<open>The plane cache is a least-recently-used cache\<close>

lemma update_absent: "k \<notin> fst ` set al \<Longrightarrow> AList.update k v al = al @ [(k, v)]"
  by (induction al) auto

lemma keys_promote:
  "map fst (AList.update k v (AList.delete k al)) = removeAll k (map fst al) @ [k]"
  by (simp add: update_absent delete_notin_dom delete_keys)

lemma keys_insert:
  "k \<notin> fst ` set al \<Longrightarrow> map fst (AList.update k v al) = removeAll k (map fst al) @ [k]"
  by (simp add: update_absent)

lemma evictPlanes_drop:
  assumes "distinct (map fst cache)" "[] \<notin> fst ` set cache"
  shows "evictPlanes cache = Some (drop (length cache - MAX_PLANE_CACHE) cache)"
  using assms
proof (induction "length cache - MAX_PLANE_CACHE" arbitrary: cache)
  case 0
  then show ?case by (subst evictPlanes.simps) simp
next
  case (Suc n)
  then obtain k v rest where c: "cache = (k, v) # rest"
    by (cases cache) auto
  from Suc.prems c have k: "k \<noteq> []" "k \<notin> fst ` set rest" by auto
  then have d: "AList.delete k cache = rest" by (simp add: c)
  have n: "n = length rest - MAX_PLANE_CACHE" using Suc.hyps(2) c by simp
  have "evictPlanes rest = Some (drop (length rest - MAX_PLANE_CACHE) rest)"
    using Suc.prems c by (intro Suc.hyps(1) [OF n]) auto
  moreover have "length cache > MAX_PLANE_CACHE" using Suc.hyps(2) by simp
  ultimately show ?case
    using Suc.hyps(2) k
    by (subst evictPlanes.simps) (simp add: c Suc_diff_le)
qed

lemma cache_ok_keys: "cache_ok sn cache \<Longrightarrow> [] \<notin> fst ` set cache"
proof
  assume ok: "cache_ok sn cache" and "[] \<in> fst ` set cache"
  then obtain e where e: "e \<in> set cache" "fst e = []" by force
  with ok have "entry_ok sn e" by (simp add: cache_ok_def list_all_iff)
  with e(2) show False using chunkKey_nonempty by (metis entry_ok_def)
qed

lemma entry_ok_generated: "entry_ok sn (chunkKey x y z, generateChunkPlanes sn x y z)"
  unfolding entry_ok_def by auto

lemma entries_ok_subset:
  "list_all (entry_ok sn) cache \<Longrightarrow> set c' \<subseteq> insert e (set cache) \<Longrightarrow> entry_ok sn e
     \<Longrightarrow> list_all (entry_ok sn) c'"
  unfolding list_all_iff by auto

text \<open>One call refines one access of the policy.\<close>

lemma generateChunkPlanesCached_step:
  assumes ok: "cache_ok sn cache"
  shows "\<exists>cache'. generateChunkPlanesCached sn x y z cache
             = Some (generateChunkPlanes sn x y z, cache')
           \<and> map fst cache' = lru_access MAX_PLANE_CACHE (map fst cache) (chunkKey x y z)
           \<and> cache_ok sn cache'
           \<and> map_of cache' (chunkKey x y z) = Some (generateChunkPlanes sn x y z)
           \<and> (\<forall>k. k \<in> fst ` set cache' \<longrightarrow> k \<noteq> chunkKey x y z \<longrightarrow> map_of cache' k = map_of cache k)"
proof -
  let ?k = "chunkKey x y z" and ?g = "generateChunkPlanes sn x y z"
  from ok have dist: "distinct (map fst cache)" and len: "length cache \<le> MAX_PLANE_CACHE"
    and gen: "list_all (entry_ok sn) cache"
    by (auto simp: cache_ok_def)
  show ?thesis
  proof (cases "map_of cache ?k")
    case (Some cached)
    then have mem: "(?k, cached) \<in> set cache" by (rule map_of_SomeD)
    from gen mem have "entry_ok sn (?k, cached)" by (auto simp: list_all_iff)
    then have cached: "cached = ?g" by (auto simp: entry_ok_def chunkKey_inj)
    let ?c' = "AList.update ?k cached (AList.delete ?k cache)"
    have r: "generateChunkPlanesCached sn x y z cache = Some (?g, ?c')"
      using Some cached by (simp add: generateChunkPlanesCached_def Let_def)
    have keys: "map fst ?c' = removeAll ?k (map fst cache) @ [?k]" by (rule keys_promote)
    have l: "length (removeAll ?k (map fst cache)) < length cache"
    proof -
      have "?k \<in> set (map fst cache)" using mem by force
      then show ?thesis using length_removeAll_less [of ?k "map fst cache"] by simp
    qed
    have lru: "map fst ?c' = lru_access MAX_PLANE_CACHE (map fst cache) ?k"
      using l len by (simp add: keys lru_access_def Let_def)
    have set': "set ?c' = insert (?k, ?g) (set (AList.delete ?k cache))"
      by (simp add: update_absent delete_notin_dom cached)
    have sub: "set (AList.delete ?k cache) \<subseteq> set cache" by (auto simp: AList.delete_eq)
    have ok': "cache_ok sn ?c'"
      unfolding cache_ok_def
    proof (intro conjI)
      show "distinct (map fst ?c')" using dist by (simp add: keys distinct_removeAll)
      show "length ?c' \<le> MAX_PLANE_CACHE"
        using l len by (metis keys length_map length_append_singleton Suc_leI le_trans)
      show "list_all (entry_ok sn) ?c'"
        using gen _ entry_ok_generated [of sn x y z]
        by (rule entries_ok_subset) (use set' sub in auto)
    qed
    have m: "map_of ?c' ?k = Some ?g" by (simp add: update_conv' cached)
    have o: "\<forall>k. k \<in> fst ` set ?c' \<longrightarrow> k \<noteq> ?k \<longrightarrow> map_of ?c' k = map_of cache k"
      by (simp add: update_conv' delete_conv')
    from r lru ok' m o show ?thesis by blast
  next
    case None
    then have notin: "?k \<notin> fst ` set cache" by (simp add: map_of_eq_None_iff)
    let ?u = "AList.update ?k ?g cache"
    have u: "?u = cache @ [(?k, ?g)]" by (rule update_absent [OF notin])
    have du: "distinct (map fst ?u)" using dist notin by (simp add: u)
    have eu: "[] \<notin> fst ` set ?u"
    proof -
      have "?k \<noteq> []" by (rule chunkKey_nonempty)
      then show ?thesis unfolding u using cache_ok_keys [OF ok] by auto
    qed
    let ?c' = "drop (length ?u - MAX_PLANE_CACHE) ?u"
    have ev: "evictPlanes ?u = Some ?c'" by (rule evictPlanes_drop [OF du eu])
    have r: "generateChunkPlanesCached sn x y z cache = Some (?g, ?c')"
      using None ev by (simp add: generateChunkPlanesCached_def Let_def)
    have rm: "removeAll ?k (map fst cache) = map fst cache"
      using notin by simp
    have lru: "map fst ?c' = lru_access MAX_PLANE_CACHE (map fst cache) ?k"
    proof -
      have mu: "map fst ?u = map fst cache @ [?k]" by (simp add: u)
      have "map fst ?c' = drop (length (map fst ?u) - MAX_PLANE_CACHE) (map fst ?u)"
        by (simp only: drop_map length_map)
      then have "map fst ?c' = drop (length (map fst cache @ [?k]) - MAX_PLANE_CACHE) (map fst cache @ [?k])"
        by (simp only: mu)
      then show ?thesis by (simp only: lru_access_def Let_def rm)
    qed
    have pos: "0 < MAX_PLANE_CACHE" by (simp add: MAX_PLANE_CACHE_def)
    have last_in: "(?k, ?g) \<in> set ?c'"
    proof -
      have lt: "length ?u - MAX_PLANE_CACHE < length ?u" using pos by (simp add: u)
      then have "?c' \<noteq> []" by simp
      then have "last ?c' \<in> set ?c'" by (rule last_in_set)
      moreover have "last ?c' = last ?u" using lt by (rule last_drop)
      moreover have "last ?u = (?k, ?g)" by (simp add: u)
      ultimately show ?thesis by simp
    qed
    have dc: "distinct (map fst ?c')" using du by (simp add: drop_map [symmetric])
    have sub: "set ?c' \<subseteq> insert (?k, ?g) (set cache)"
      using set_drop_subset [of "length ?u - MAX_PLANE_CACHE" ?u] by (simp add: u)
    have ok': "cache_ok sn ?c'"
      unfolding cache_ok_def
    proof (intro conjI)
      show "distinct (map fst ?c')" by (rule dc)
      show "length ?c' \<le> MAX_PLANE_CACHE" by simp
      show "list_all (entry_ok sn) ?c'"
        using gen sub entry_ok_generated [of sn x y z] by (rule entries_ok_subset)
    qed
    have m: "map_of ?c' ?k = Some ?g" using dc last_in by simp
    have o: "\<forall>k. k \<in> fst ` set ?c' \<longrightarrow> k \<noteq> ?k \<longrightarrow> map_of ?c' k = map_of cache k"
    proof (intro allI impI)
      fix k assume k: "k \<in> fst ` set ?c'" "k \<noteq> ?k"
      then obtain p where p: "(k, p) \<in> set ?c'" by auto
      with sub k(2) have "(k, p) \<in> set cache" by auto
      with dist have "map_of cache k = Some p" by simp
      moreover from dc p have "map_of ?c' k = Some p" by simp
      ultimately show "map_of ?c' k = map_of cache k" by simp
    qed
    from r lru ok' m o show ?thesis by blast
  qed
qed

lemma cache_ok_empty: "cache_ok sn []"
  by (simp add: cache_ok_def)

lemma accessChunks_refines:
  assumes "cache_ok sn cache"
  shows "\<exists>cache'. accessChunks sn cs cache = Some cache'
           \<and> map fst cache' = foldl (lru_access MAX_PLANE_CACHE) (map fst cache) (map keyOf cs)
           \<and> cache_ok sn cache'"
  using assms
proof (induction cs arbitrary: cache)
  case Nil
  then show ?case by simp
next
  case (Cons c cs)
  obtain x y z where c: "c = (x, y, z)" by (cases c) auto
  from generateChunkPlanesCached_step [OF Cons.prems, of x y z]
  obtain c1 where c1: "generateChunkPlanesCached sn x y z cache = Some (generateChunkPlanes sn x y z, c1)"
    "map fst c1 = lru_access MAX_PLANE_CACHE (map fst cache) (chunkKey x y z)" "cache_ok sn c1"
    by blast
  from Cons.IH [OF c1(3)] obtain c2 where c2: "accessChunks sn cs c1 = Some c2"
    "map fst c2 = foldl (lru_access MAX_PLANE_CACHE) (map fst c1) (map keyOf cs)" "cache_ok sn c2"
    by blast
  have k: "keyOf c = chunkKey x y z" by (simp add: c keyOf_def)
  show ?case using c1 c2 by (simp add: c k [unfolded c])
qed

lemma lru_fill:
  "distinct ks \<Longrightarrow> length acc + length ks \<le> cap \<Longrightarrow> set acc \<inter> set ks = {}
     \<Longrightarrow> foldl (lru_access cap) acc ks = acc @ ks"
proof (induction ks arbitrary: acc)
  case Nil
  then show ?case by simp
next
  case (Cons k ks)
  have "lru_access cap acc k = acc @ [k]"
    using Cons.prems by (simp add: lru_access_def Let_def)
  moreover have "foldl (lru_access cap) (acc @ [k]) ks = (acc @ [k]) @ ks"
    using Cons.prems by (intro Cons.IH) auto
  ultimately show ?case by simp
qed

lemma lru_overflow:
  assumes "distinct ks" "length ks = cap" "k \<notin> set ks" "0 < cap"
  shows "lru_access cap ks k = tl ks @ [k]"
  using assms by (cases ks) (simp_all add: lru_access_def Let_def)

lemma lru_promote:
  assumes "distinct ks" "length ks \<le> cap" "k \<in> set ks"
  shows "lru_access cap ks k = removeAll k ks @ [k]"
proof -
  have "length (removeAll k ks) < length ks" using assms(3) by (rule length_removeAll_less)
  with assms(2) show ?thesis by (simp add: lru_access_def Let_def)
qed

lemma distinct_keys: "distinct cs \<Longrightarrow> distinct (map keyOf cs)"
  by (simp add: distinct_map inj_on_def keyOf_inj)

lemma keys_full:
  assumes dist: "distinct cs" and len: "length cs = MAX_PLANE_CACHE + 1"
  shows "foldl (lru_access MAX_PLANE_CACHE) [] (map keyOf (butlast cs)) = map keyOf (butlast cs)"
  using distinct_keys [OF distinct_butlast [OF dist]] len
  by (subst lru_fill) simp_all

lemma keys_overflow:
  assumes dist: "distinct cs" and len: "length cs = MAX_PLANE_CACHE + 1"
  shows "foldl (lru_access MAX_PLANE_CACHE) [] (map keyOf cs) = map keyOf (tl cs)"
proof -
  have ne: "cs \<noteq> []" using len by auto
  then have cs: "cs = butlast cs @ [last cs]" by simp
  have d: "distinct (map keyOf cs)" by (rule distinct_keys [OF dist])
  have dk: "distinct (map keyOf (butlast cs))" by (rule distinct_keys [OF distinct_butlast [OF dist]])
  have nk: "keyOf (last cs) \<notin> set (map keyOf (butlast cs))"
    using d by (subst (asm) cs) (simp del: append_butlast_last_id)
  have "foldl (lru_access MAX_PLANE_CACHE) [] (map keyOf cs)
      = lru_access MAX_PLANE_CACHE (map keyOf (butlast cs)) (keyOf (last cs))"
    by (subst cs) (simp add: keys_full [OF dist len] del: append_butlast_last_id)
  also have "\<dots> = tl (map keyOf (butlast cs)) @ [keyOf (last cs)]"
    using dk nk len by (intro lru_overflow) (simp_all add: MAX_PLANE_CACHE_def)
  also have "\<dots> = map keyOf (tl (butlast cs) @ [last cs])" by (simp add: map_tl)
  also have "tl (butlast cs) @ [last cs] = tl cs"
    using len by (cases cs) (auto simp: MAX_PLANE_CACHE_def)
  finally show ?thesis .
qed

lemma keys_protected:
  assumes dist: "distinct cs" and len: "length cs = MAX_PLANE_CACHE + 1"
      and mem: "c \<in> set (butlast cs)"
  shows "foldl (lru_access MAX_PLANE_CACHE) [] (map keyOf (butlast cs @ [c, last cs]))
       = tl (removeAll (keyOf c) (map keyOf (butlast cs))) @ [keyOf c, keyOf (last cs)]"
proof -
  let ?ks = "map keyOf (butlast cs)" and ?k = "keyOf c" and ?l = "keyOf (last cs)"
  have ne: "cs \<noteq> []" using len by auto
  then have cs: "cs = butlast cs @ [last cs]" by simp
  have d: "distinct (map keyOf cs)" by (rule distinct_keys [OF dist])
  have dk: "distinct ?ks" by (rule distinct_keys [OF distinct_butlast [OF dist]])
  have nk: "?l \<notin> set ?ks"
    using d by (subst (asm) cs) (simp del: append_butlast_last_id)
  have lk: "length ?ks = MAX_PLANE_CACHE" using len by simp
  have kin: "?k \<in> set ?ks" using mem by simp
  have kl: "?k \<noteq> ?l" using kin nk by auto
  let ?p = "removeAll ?k ?ks @ [?k]"
  have p: "lru_access MAX_PLANE_CACHE ?ks ?k = ?p"
    using dk lk kin by (intro lru_promote) simp_all
  have lp: "length ?p = MAX_PLANE_CACHE"
  proof -
    have "length (removeAll ?k ?ks) = length ?ks - 1"
      using dk kin by (simp add: distinct_remove1_removeAll [symmetric] length_remove1)
    with lk show ?thesis by (simp add: MAX_PLANE_CACHE_def)
  qed
  have dp: "distinct ?p" using dk by (simp add: distinct_removeAll)
  have np: "?l \<notin> set ?p" using nk kl by auto
  have "foldl (lru_access MAX_PLANE_CACHE) [] (map keyOf (butlast cs @ [c, last cs]))
      = lru_access MAX_PLANE_CACHE (lru_access MAX_PLANE_CACHE ?ks ?k) ?l"
    by (simp add: keys_full [OF dist len])
  also have "\<dots> = tl ?p @ [?l]"
    unfolding p using dp lp np by (intro lru_overflow) (simp_all add: MAX_PLANE_CACHE_def)
  also have "tl ?p = tl (removeAll ?k ?ks) @ [?k]"
  proof -
    have "length (removeAll ?k ?ks) = MAX_PLANE_CACHE - 1" using lp by simp
    then have "removeAll ?k ?ks \<noteq> []" by (auto simp: MAX_PLANE_CACHE_def)
    then show ?thesis by simp
  qed
  finally show ?thesis by simp
qed

text \<open>
  Claim C6. The plane cache (capacity 256) is a true least-recently-used cache. After
  calls for capacity + 1 distinct chunks from the empty cache, the first one, the least
  recently accessed, is evicted and no longer hits, and the others are kept. A call for
  a chunk \<open>c\<close> already present, made before the last of those inserts, promotes \<open>c\<close>: that
  insert then evicts the oldest of the other keys and \<open>c\<close> stays, with its list. After any
  sequence of calls the cache holds the keys of the policy \<open>lru_access\<close>, least recently
  used first; every call returns the generator's list for its chunk, which on a hit is
  the list stored, and leaves the keys as one more access of the policy does.
\<close>

theorem plane_cache_true_lru:
  assumes dist: "distinct cs" and len: "length cs = MAX_PLANE_CACHE + 1"
      and mem: "c \<in> set (butlast cs)"
  shows "(\<exists>cache. accessChunks sn cs [] = Some cache
            \<and> map fst cache = map keyOf (tl cs)
            \<and> map_of cache (keyOf (hd cs)) = None)
       \<and> (\<exists>cache. accessChunks sn (butlast cs @ [c, last cs]) [] = Some cache
            \<and> map fst cache
                = tl (removeAll (keyOf c) (map keyOf (butlast cs))) @ [keyOf c, keyOf (last cs)]
            \<and> map_of cache (keyOf c)
                = Some (generateChunkPlanes sn (fst c) (fst (snd c)) (snd (snd c))))
       \<and> (\<exists>cache cache'. accessChunks sn calls [] = Some cache
            \<and> map fst cache = foldl (lru_access MAX_PLANE_CACHE) [] (map keyOf calls)
            \<and> generateChunkPlanesCached sn x y z cache
                = Some (generateChunkPlanes sn x y z, cache')
            \<and> map fst cache' = lru_access MAX_PLANE_CACHE (map fst cache) (chunkKey x y z)
            \<and> map_of cache (chunkKey x y z) \<in> {None, Some (generateChunkPlanes sn x y z)})"
proof (intro conjI)
  from accessChunks_refines [OF cache_ok_empty, of sn cs]
  obtain cache where a: "accessChunks sn cs [] = Some cache"
    "map fst cache = foldl (lru_access MAX_PLANE_CACHE) [] (map keyOf cs)" by auto
  have k: "map fst cache = map keyOf (tl cs)"
    using a(2) by (simp only: keys_overflow [OF dist len])
  have ne: "cs \<noteq> []" using len by auto
  have "hd cs \<notin> set (tl cs)" using dist ne by (cases cs) auto
  then have "keyOf (hd cs) \<notin> set (map keyOf (tl cs))" by (auto simp: keyOf_inj)
  then have "keyOf (hd cs) \<notin> fst ` set cache" using k by (metis set_map)
  then have "map_of cache (keyOf (hd cs)) = None" by (simp add: map_of_eq_None_iff)
  with a(1) k show "\<exists>cache. accessChunks sn cs [] = Some cache
            \<and> map fst cache = map keyOf (tl cs) \<and> map_of cache (keyOf (hd cs)) = None"
    by blast
next
  let ?calls = "butlast cs @ [c, last cs]"
  from accessChunks_refines [OF cache_ok_empty, of sn ?calls]
  obtain cache where a: "accessChunks sn ?calls [] = Some cache"
    "map fst cache = foldl (lru_access MAX_PLANE_CACHE) [] (map keyOf ?calls)"
    "cache_ok sn cache" by auto
  have k: "map fst cache
      = tl (removeAll (keyOf c) (map keyOf (butlast cs))) @ [keyOf c, keyOf (last cs)]"
    using a(2) by (simp only: keys_protected [OF dist len mem])
  then have "keyOf c \<in> set (map fst cache)" by simp
  then obtain planes where p: "(keyOf c, planes) \<in> set cache" by auto
  from a(3) have d: "distinct (map fst cache)" and g: "list_all (entry_ok sn) cache"
    by (simp_all add: cache_ok_def)
  from g p have "entry_ok sn (keyOf c, planes)" by (auto simp: list_all_iff)
  then have "planes = generateChunkPlanes sn (fst c) (fst (snd c)) (snd (snd c))"
    by (auto simp: entry_ok_def keyOf_def chunkKey_inj)
  with d p have "map_of cache (keyOf c)
      = Some (generateChunkPlanes sn (fst c) (fst (snd c)) (snd (snd c)))" by simp
  with a(1) k show "\<exists>cache. accessChunks sn ?calls [] = Some cache
            \<and> map fst cache
                = tl (removeAll (keyOf c) (map keyOf (butlast cs))) @ [keyOf c, keyOf (last cs)]
            \<and> map_of cache (keyOf c)
                = Some (generateChunkPlanes sn (fst c) (fst (snd c)) (snd (snd c)))"
    by blast
next
  from accessChunks_refines [OF cache_ok_empty, of sn calls]
  obtain cache where a: "accessChunks sn calls [] = Some cache"
    "map fst cache = foldl (lru_access MAX_PLANE_CACHE) [] (map keyOf calls)"
    "cache_ok sn cache" by auto
  from generateChunkPlanesCached_step [OF a(3), of x y z]
  obtain cache' where s: "generateChunkPlanesCached sn x y z cache
        = Some (generateChunkPlanes sn x y z, cache')"
    "map fst cache' = lru_access MAX_PLANE_CACHE (map fst cache) (chunkKey x y z)" by blast
  have "map_of cache (chunkKey x y z) \<in> {None, Some (generateChunkPlanes sn x y z)}"
  proof (cases "map_of cache (chunkKey x y z)")
    case (Some planes)
    then have "(chunkKey x y z, planes) \<in> set cache" by (rule map_of_SomeD)
    with a(3) have "entry_ok sn (chunkKey x y z, planes)"
      by (auto simp: cache_ok_def list_all_iff)
    then have "planes = generateChunkPlanes sn x y z" by (auto simp: entry_ok_def chunkKey_inj)
    with Some show ?thesis by simp
  qed simp
  with a(1,2) s show "\<exists>cache cache'. accessChunks sn calls [] = Some cache
            \<and> map fst cache = foldl (lru_access MAX_PLANE_CACHE) [] (map keyOf calls)
            \<and> generateChunkPlanesCached sn x y z cache
                = Some (generateChunkPlanes sn x y z, cache')
            \<and> map fst cache' = lru_access MAX_PLANE_CACHE (map fst cache) (chunkKey x y z)
            \<and> map_of cache (chunkKey x y z) \<in> {None, Some (generateChunkPlanes sn x y z)}"
    by blast
qed

text \<open>
  Witness: the 257 chunks \<open>(0, 0, 0), \<dots>, (256, 0, 0)\<close>, with and without a second call
  for \<open>(0, 0, 0)\<close> before the last insert.
\<close>

theorem plane_cache_true_lru_witness:
  "(\<exists>cache. accessChunks sin (map (\<lambda>i. (int i, 0, 0)) [0 ..< 257]) [] = Some cache
      \<and> map_of cache (keyOf (0, 0, 0)) = None)
   \<and> (\<exists>cache. accessChunks sin
                 (map (\<lambda>i. (int i, 0, 0)) [0 ..< 256] @ [(0, 0, 0), (256, 0, 0)]) [] = Some cache
      \<and> map_of cache (keyOf (0, 0, 0)) = Some (generateChunkPlanes sin 0 0 0))"
proof -
  let ?cs = "map (\<lambda>i. (int i, 0 :: int, 0 :: int)) [0 ..< 257]"
  have dist: "distinct ?cs" by (simp add: distinct_map inj_on_def)
  have len: "length ?cs = MAX_PLANE_CACHE + 1" by (simp add: MAX_PLANE_CACHE_def)
  have up: "[0 ..< 257] = [0 ..< 256] @ [256]"
    using upt_Suc_append [of 0 256] by simp
  have bl: "butlast ?cs = map (\<lambda>i. (int i, 0, 0)) [0 ..< 256]" by (simp add: up)
  have la: "last ?cs = (256, 0, 0)" by (simp add: up)
  have h: "hd ?cs = (0, 0, 0)" by (simp add: upt_conv_Cons)
  have mem: "(0, 0, 0) \<in> set (butlast ?cs)" unfolding bl by force
  from plane_cache_true_lru [OF dist len mem, of sin]
  show ?thesis unfolding bl la h by (simp only: fst_conv snd_conv) blast
qed

section \<open>The generator and the media lookup\<close>

lemma seededRandom_range: "0 \<le> seededRandom sn seed" "seededRandom sn seed < 1"
  unfolding seededRandom_def Let_def by linarith+

lemma length_generateChunkPlanes: "length (generateChunkPlanes sn x y z) = PLANES_PER_CHUNK"
  by (simp add: generateChunkPlanes_def)

lemma generated_plane:
  assumes "p \<in> set (generateChunkPlanes sn x y z)"
  obtains i where "i < PLANES_PER_CHUNK"
    "p = generatePlane sn x y z (hashString (chunkKey x y z)) i"
  using assms by (auto simp: generateChunkPlanes_def)

lemma mediaIndex_generatePlane:
  "0 \<le> mediaIndex (generatePlane sn x y z seed i)"
  "mediaIndex (generatePlane sn x y z seed i) < 1000000"
proof -
  let ?r = "seededRandom sn (real (seed + i * 1000 + 5))"
  have m: "mediaIndex (generatePlane sn x y z seed i) = \<lfloor>?r * 1000000\<rfloor>"
    by (simp add: generatePlane_def Let_def)
  have "0 \<le> ?r * 1000000" using seededRandom_range(1) [of sn] by simp
  then show "0 \<le> mediaIndex (generatePlane sn x y z seed i)" unfolding m by simp
  have "?r * 1000000 < 1000000" using seededRandom_range(2) [of sn] by simp
  then show "mediaIndex (generatePlane sn x y z seed i) < 1000000" unfolding m by linarith
qed

lemma js_rem_nonneg: "0 \<le> a \<Longrightarrow> 0 < b \<Longrightarrow> js_rem a b = Some (a mod b)"
  by (cases "a = 0") (simp_all add: js_rem_def)

lemma planeMedia_found:
  assumes "media \<noteq> []" "0 \<le> mediaIndex p"
  shows "planeMedia media p = Some (media ! nat (mediaIndex p mod int (length media)))"
proof -
  have pos: "0 < int (length media)" using assms(1) by simp
  have "js_rem (mediaIndex p) (int (length media)) = Some (mediaIndex p mod int (length media))"
    using assms(2) pos by (rule js_rem_nonneg)
  moreover have "0 \<le> mediaIndex p mod int (length media)"
    "mediaIndex p mod int (length media) < int (length media)"
    using pos by simp_all
  ultimately show ?thesis by (simp add: planeMedia_def js_index_def)
qed

lemma chunkMediaPlanes_all:
  assumes "media \<noteq> []" "\<forall>p \<in> set planes. 0 \<le> mediaIndex p"
  shows "chunkMediaPlanes media planes =
           map (\<lambda>p. (media ! nat (mediaIndex p mod int (length media)), position p, scale p)) planes"
  using assms(2)
  by (induction planes) (simp_all add: chunkMediaPlanes_def planeMedia_found [OF assms(1)])

text \<open>
  Claim C10. For a non-empty media list, every plane the generator produces has a
  non-negative integer \<open>mediaIndex\<close> (below one million); the remainder
  \<^verbatim>\<open>mediaIndex % media.length\<close> is then the mathematical one, lies in
  \<open>[0, media.length)\<close>, and the lookup finds the item at that index. So the composer's
  skip branch is never taken: the chunk renders one media plane per generated plane.
\<close>

theorem media_lookup_never_skips:
  assumes "media \<noteq> []" and "p \<in> set (generateChunkPlanes sn x y z)"
  shows "0 \<le> mediaIndex p \<and> mediaIndex p < 1000000
       \<and> js_rem (mediaIndex p) (int (length media)) = Some (mediaIndex p mod int (length media))
       \<and> 0 \<le> mediaIndex p mod int (length media)
       \<and> mediaIndex p mod int (length media) < int (length media)
       \<and> planeMedia media p = Some (media ! nat (mediaIndex p mod int (length media)))
       \<and> media ! nat (mediaIndex p mod int (length media)) \<in> set media
       \<and> length (chunkMediaPlanes media (generateChunkPlanes sn x y z)) = PLANES_PER_CHUNK"
proof -
  from assms(2) obtain i where p: "p = generatePlane sn x y z (hashString (chunkKey x y z)) i"
    by (rule generated_plane)
  have nn: "0 \<le> mediaIndex p" and lt: "mediaIndex p < 1000000"
    unfolding p by (rule mediaIndex_generatePlane)+
  have pos: "0 < int (length media)" using assms(1) by simp
  have r: "js_rem (mediaIndex p) (int (length media)) = Some (mediaIndex p mod int (length media))"
    using nn pos by (rule js_rem_nonneg)
  have b: "0 \<le> mediaIndex p mod int (length media)"
    "mediaIndex p mod int (length media) < int (length media)"
    using pos by simp_all
  have f: "planeMedia media p = Some (media ! nat (mediaIndex p mod int (length media)))"
    using assms(1) nn by (rule planeMedia_found)
  have "nat (mediaIndex p mod int (length media)) < length media" using b by simp
  then have e: "media ! nat (mediaIndex p mod int (length media)) \<in> set media"
    by (rule nth_mem)
  have all: "\<forall>q \<in> set (generateChunkPlanes sn x y z). 0 \<le> mediaIndex q"
    by (auto elim!: generated_plane simp: mediaIndex_generatePlane)
  have c: "length (chunkMediaPlanes media (generateChunkPlanes sn x y z)) = PLANES_PER_CHUNK"
    by (simp add: chunkMediaPlanes_all [OF assms(1) all] length_generateChunkPlanes)
  from nn lt r b f e c show ?thesis by (simp only: simp_thms)
qed

text \<open>
  Witness: a media list of three items and the fourth plane of the chunk \<open>(-1, 0, 2)\<close>,
  with a sine that is negative everywhere: \<open>x = -49999.95\<close>, whose fractional part
  \<open>x - \<lfloor>x\<rfloor>\<close> is \<open>0.05\<close>, so that the index is \<open>50000\<close> and the remainder by three
  selects the third item.
\<close>

theorem media_lookup_never_skips_witness:
  "mediaIndex (generatePlane (\<lambda>x. - 1 / 2) (- 1) 0 2 (hashString (chunkKey (- 1) 0 2)) 3) = 50000
   \<and> planeMedia [\<lparr>url = ''a.jpg'', width = 4, height = 3, title = None\<rparr>,
                 \<lparr>url = ''b.jpg'', width = 3, height = 4, title = None\<rparr>,
                 \<lparr>url = ''c.jpg'', width = 1, height = 1, title = None\<rparr>]
     (generatePlane (\<lambda>x. - 1 / 2) (- 1) 0 2 (hashString (chunkKey (- 1) 0 2)) 3)
   = Some \<lparr>url = ''c.jpg'', width = 1, height = 1, title = None\<rparr>"
proof -
  let ?media = "[\<lparr>url = ''a.jpg'', width = 4, height = 3, title = None\<rparr>,
                 \<lparr>url = ''b.jpg'', width = 3, height = 4, title = None\<rparr>,
                 \<lparr>url = ''c.jpg'', width = 1, height = 1, title = None\<rparr>]"
  let ?p = "generatePlane (\<lambda>x. - 1 / 2) (- 1) 0 2 (hashString (chunkKey (- 1) 0 2)) 3"
  have ne: "?media \<noteq> []" by simp
  have mem: "?p \<in> set (generateChunkPlanes (\<lambda>x. - 1 / 2) (- 1) 0 2)"
    by (simp add: generateChunkPlanes_def PLANES_PER_CHUNK_def)
  have i: "mediaIndex ?p = 50000"
    by (simp add: generatePlane_def seededRandom_def Let_def)
  from media_lookup_never_skips [OF ne mem] i show ?thesis by simp
qed

text \<open>
  In exact arithmetic every generated plane lies in its chunk and has a size in range.
  The program computes the same expressions in IEEE doubles, where the sums are rounded.
\<close>

lemma generatePlane_exact:
  "\<exists>ox oy oz size. position (generatePlane sn x y z seed i)
        = (real_of_int (x * CHUNK_SIZE) + ox, real_of_int (y * CHUNK_SIZE) + oy,
           real_of_int (z * CHUNK_SIZE) + oz)
     \<and> 0 \<le> ox \<and> ox < real_of_int CHUNK_SIZE \<and> 0 \<le> oy \<and> oy < real_of_int CHUNK_SIZE
     \<and> 0 \<le> oz \<and> oz < real_of_int CHUNK_SIZE
     \<and> scale (generatePlane sn x y z seed i) = (size, size, 1)
     \<and> real_of_int PLANE_SIZE_MIN \<le> size \<and> size \<le> real_of_int PLANE_SIZE_MAX"
proof -
  let ?r = "\<lambda>n :: nat. seededRandom sn (real (seed + i * 1000 + n))"
  have r: "\<And>n. 0 \<le> ?r n \<and> ?r n < 1" using seededRandom_range [of sn] by simp
  have o: "\<And>n. 0 \<le> ?r n * real_of_int CHUNK_SIZE \<and> ?r n * real_of_int CHUNK_SIZE < real_of_int CHUNK_SIZE"
    using r by (simp add: CHUNK_SIZE_def)
  have s: "real_of_int PLANE_SIZE_MIN
        \<le> real_of_int PLANE_SIZE_MIN + ?r 4 * real_of_int (PLANE_SIZE_MAX - PLANE_SIZE_MIN)"
    "real_of_int PLANE_SIZE_MIN + ?r 4 * real_of_int (PLANE_SIZE_MAX - PLANE_SIZE_MIN)
        \<le> real_of_int PLANE_SIZE_MAX"
    using r [of 4] by (simp_all add: PLANE_SIZE_MIN_def PLANE_SIZE_MAX_def)
  have pos: "position (generatePlane sn x y z seed i)
      = (real_of_int (x * CHUNK_SIZE) + ?r 0 * real_of_int CHUNK_SIZE,
         real_of_int (y * CHUNK_SIZE) + ?r 1 * real_of_int CHUNK_SIZE,
         real_of_int (z * CHUNK_SIZE) + ?r 2 * real_of_int CHUNK_SIZE)"
    by (simp add: generatePlane_def Let_def add_ac)
  have sc: "scale (generatePlane sn x y z seed i)
      = (real_of_int PLANE_SIZE_MIN + ?r 4 * real_of_int (PLANE_SIZE_MAX - PLANE_SIZE_MIN),
         real_of_int PLANE_SIZE_MIN + ?r 4 * real_of_int (PLANE_SIZE_MAX - PLANE_SIZE_MIN), 1)"
    by (simp add: generatePlane_def Let_def)
  show ?thesis unfolding pos sc using o [of 0] o [of 1] o [of 2] s by blast
qed

section \<open>Fade convergence\<close>

lemma fadeTicks_value: "fadeTicks = 13"
proof -
  have "1 / FADE_IN_SPEED = 25 / 2" by (simp add: FADE_IN_SPEED_def)
  moreover have "\<lceil>25 / 2 :: real\<rceil> = 13" by linarith
  ultimately have "\<lceil>1 / FADE_IN_SPEED\<rceil> = 13" by (simp only:)
  then show ?thesis by (simp only: fadeTicks_def nat_numeral)
qed

lemma foldl_delete_filter:
  "foldl (\<lambda>al k. AList.delete k al) al ks = filter (\<lambda>e. fst e \<notin> set ks) al"
proof (induction ks arbitrary: al)
  case Nil
  then show ?case by simp
next
  case (Cons k ks)
  have "AList.delete k al = filter (\<lambda>e. fst e \<noteq> k) al"
    by (induction al) auto
  then show ?case by (simp add: Cons.IH conj_commute)
qed

lemma completed_keys:
  assumes "distinct (map fst al)" "e \<in> set al"
  shows "fst e \<in> set (map fst (filter P al)) \<longleftrightarrow> P e"
proof
  assume "fst e \<in> set (map fst (filter P al))"
  then obtain e' where e': "e' \<in> set al" "P e'" "fst e' = fst e" by auto
  with assms have "e' = e" by (metis eq_key_imp_eq_value prod.collapse)
  with e' show "P e" by simp
next
  assume "P e"
  with assms(2) show "fst e \<in> set (map fst (filter P al))" by auto
qed

lemma foldl_applyEntry_fields:
  "activeFades (foldl (\<lambda>t (fid, e). applyEntry t e) s es) = activeFades s"
  "isAnimating (foldl (\<lambda>t (fid, e). applyEntry t e) s es) = isAnimating s"
  "animationFrameId (foldl (\<lambda>t (fid, e). applyEntry t e) s es) = animationFrameId s"
  "frameRequests (foldl (\<lambda>t (fid, e). applyEntry t e) s es) = frameRequests s"
  "nextFrameId (foldl (\<lambda>t (fid, e). applyEntry t e) s es) = nextFrameId s"
  by (induction es arbitrary: s; simp add: applyEntry_def case_prod_unfold)+

lemma activeFades_animate:
  assumes "distinct (map fst (activeFades s))"
  shows "activeFades (animate s) = filter (\<lambda>(fid, e). \<not> fadeComplete e) (advanced s)"
proof -
  let ?es = "advanced s"
  have d: "distinct (map fst ?es)" using assms by (simp add: advanced_def comp_def case_prod_unfold)
  have "foldl (\<lambda>al fid. AList.delete fid al) ?es (map fst (filter (\<lambda>(fid, e). fadeComplete e) ?es))
      = filter (\<lambda>e. fst e \<notin> set (map fst (filter (\<lambda>(fid, e). fadeComplete e) ?es))) ?es"
    by (rule foldl_delete_filter)
  also have "\<dots> = filter (\<lambda>(fid, e). \<not> fadeComplete e) ?es"
  proof (rule filter_cong [OF refl])
    fix x assume "x \<in> set ?es"
    from completed_keys [OF d this, of "\<lambda>(fid, e). fadeComplete e"]
    show "(fst x \<notin> set (map fst (filter (\<lambda>(fid, e). fadeComplete e) ?es)))
        = (case x of (fid, e) \<Rightarrow> \<not> fadeComplete e)"
      by (simp add: case_prod_unfold)
  qed
  finally show ?thesis
    by (simp add: animate_def Let_def foldl_applyEntry_fields requestAnimationFrame_def
        advanced_def [symmetric])
qed

lemma map_of_filter_distinct:
  "distinct (map fst al) \<Longrightarrow>
     map_of (filter P al) k = (case map_of al k of None \<Rightarrow> None
                               | Some v \<Rightarrow> if P (k, v) then Some v else None)"
proof (induction al)
  case Nil
  then show ?case by simp
next
  case (Cons a al)
  obtain k' v' where a: "a = (k', v')" by (cases a)
  from Cons.prems a have notin: "k' \<notin> fst ` set al" by simp
  then have n: "map_of al k' = None" by (simp add: map_of_eq_None_iff)
  show ?case
  proof (cases "k = k'")
    case True
    with n Cons a show ?thesis by simp
  next
    case False
    with Cons a show ?thesis by simp
  qed
qed

lemma map_of_advanced: "map_of (advanced s) k = map_option advanceEntry (map_of (activeFades s) k)"
  unfolding advanced_def by (induction "activeFades s" arbitrary: s) (auto simp: map_of_map)

lemma distinct_advanced: "distinct (map fst (activeFades s)) \<Longrightarrow> distinct (map fst (advanced s))"
  by (simp add: advanced_def comp_def case_prod_unfold)

lemma animate_control:
  assumes "distinct (map fst (activeFades s))" "frameRequests s = []" "isAnimating s"
  shows "fade_ok (animate s)"
    and "activeFades (animate s) = [] \<Longrightarrow>
           \<not> isAnimating (animate s) \<and> animationFrameId (animate s) = None
           \<and> frameRequests (animate s) = []"
proof -
  let ?keep = "filter (\<lambda>(fid, e). \<not> fadeComplete e) (advanced s)"
  have af: "activeFades (animate s) = ?keep" by (rule activeFades_animate [OF assms(1)])
  have d: "distinct (map fst ?keep)"
    using distinct_advanced [OF assms(1)] by (simp add: distinct_map_filter)
  have keep: "foldl (\<lambda>al fid. AList.delete fid al) (advanced s)
        (map fst (filter (\<lambda>(fid, e). fadeComplete e) (advanced s))) = ?keep"
    using af by (simp add: animate_def Let_def foldl_applyEntry_fields requestAnimationFrame_def
        advanced_def [symmetric] split: if_splits)
  show "fade_ok (animate s)"
    using d assms(2,3)
    by (simp add: fade_ok_def animate_def Let_def foldl_applyEntry_fields
        requestAnimationFrame_def advanced_def [symmetric] keep)
  show "activeFades (animate s) = [] \<Longrightarrow>
           \<not> isAnimating (animate s) \<and> animationFrameId (animate s) = None
           \<and> frameRequests (animate s) = []"
    using assms(2)
    by (simp add: animate_def Let_def foldl_applyEntry_fields
        requestAnimationFrame_def advanced_def [symmetric] keep split: if_splits)
qed

lemma tick_running:
  assumes "fade_ok s" "activeFades s \<noteq> []"
  shows "tick s = animate (s\<lparr>frameRequests := []\<rparr>)"
  using assms by (auto simp: fade_ok_def tick_def split: option.splits)

lemma tick_idle:
  assumes "fade_ok s" "animationFrameId s = None"
  shows "tick s = s"
  using assms by (auto simp: fade_ok_def tick_def split: option.splits)

lemma fade_ok_tick: "fade_ok s \<Longrightarrow> fade_ok (tick s)"
proof -
  assume ok: "fade_ok s"
  show ?thesis
  proof (cases "frameRequests s")
    case Nil
    then show ?thesis using ok by (simp add: tick_def)
  next
    case (Cons r rest)
    with ok have "rest = []" by (auto simp: fade_ok_def split: option.splits if_splits)
    with Cons have "tick s = animate (s\<lparr>frameRequests := []\<rparr>)" by (simp add: tick_def)
    moreover have "fade_ok (animate (s\<lparr>frameRequests := []\<rparr>))"
      using ok Cons by (intro animate_control(1)) (auto simp: fade_ok_def split: option.splits)
    ultimately show ?thesis by simp
  qed
qed

lemma fade_ok_startFade: "fade_ok s \<Longrightarrow> fade_ok (startFade fid im pm imesh pmesh s)"
  by (auto simp: fade_ok_def startFade_def Let_def requestAnimationFrame_def distinct_update
      split: option.splits)

lemma fade_ok_initial: "fade_ok (fadeInitial opac depth vis)"
  by (simp add: fade_ok_def fadeInitial_def)

lemma tick_entry:
  assumes ok: "fade_ok s" and e: "map_of (activeFades s) fid = Some e"
  shows "map_of (activeFades (tick s)) fid
       = (if fadeComplete (advanceEntry e) then None else Some (advanceEntry e))"
proof -
  from e have ne: "activeFades s \<noteq> []" by auto
  let ?s = "s\<lparr>frameRequests := []\<rparr>"
  have d: "distinct (map fst (activeFades ?s))" using ok by (simp add: fade_ok_def)
  have "activeFades (tick s) = filter (\<lambda>(fid, e). \<not> fadeComplete e) (advanced ?s)"
    unfolding tick_running [OF ok ne] by (rule activeFades_animate [OF d])
  then show ?thesis
    using e by (simp add: map_of_filter_distinct [OF distinct_advanced [OF d]] map_of_advanced)
qed

lemma advanceEntry_handles [simp]:
  "imageMaterial (advanceEntry e) = imageMaterial e"
  "placeholderMaterial (advanceEntry e) = placeholderMaterial e"
  "imageMesh (advanceEntry e) = imageMesh e"
  "placeholderMesh (advanceEntry e) = placeholderMesh e"
  by (simp_all add: advanceEntry_def)

lemma applyEntry_opacity:
  "materialOpacity (applyEntry t e) h
     = (if h = placeholderMaterial e then placeholderOpacity e
        else if h = imageMaterial e then imageOpacity e else materialOpacity t h)"
  by (simp add: applyEntry_def)

lemma foldl_applyEntry_other:
  assumes "list_all (\<lambda>(k, e). imageMaterial e \<noteq> h \<and> placeholderMaterial e \<noteq> h) es"
  shows "materialOpacity (foldl (\<lambda>t (fid, e). applyEntry t e) s es) h = materialOpacity s h"
  using assms
  by (induction es arbitrary: s) (auto simp: applyEntry_opacity)

lemma foldl_applyEntry_own:
  assumes d: "distinct (map fst es)" and m: "(fid, e) \<in> set es"
      and u: "list_all (\<lambda>(k, e). k = fid \<or> (imageMaterial e \<noteq> h \<and> placeholderMaterial e \<noteq> h)) es"
  shows "materialOpacity (foldl (\<lambda>t (fid, e). applyEntry t e) s es) h
       = (if h = placeholderMaterial e then placeholderOpacity e
          else if h = imageMaterial e then imageOpacity e else materialOpacity s h)"
proof -
  from m obtain xs ys where es: "es = xs @ (fid, e) # ys" by (auto dest: split_list)
  from d es have nx: "fid \<notin> fst ` set xs" and ny: "fid \<notin> fst ` set ys" by auto
  have ox: "list_all (\<lambda>(k, e). imageMaterial e \<noteq> h \<and> placeholderMaterial e \<noteq> h) xs"
    using u nx unfolding es list_all_iff by force
  have oy: "list_all (\<lambda>(k, e). imageMaterial e \<noteq> h \<and> placeholderMaterial e \<noteq> h) ys"
    using u ny unfolding es list_all_iff by force
  let ?f = "\<lambda>t (fid, e). applyEntry t e"
  have "foldl ?f s es = foldl ?f (applyEntry (foldl ?f s xs) e) ys"
    unfolding es by simp
  then have "materialOpacity (foldl ?f s es) h = materialOpacity (applyEntry (foldl ?f s xs) e) h"
    by (simp only: foldl_applyEntry_other [OF oy])
  also have "\<dots> = (if h = placeholderMaterial e then placeholderOpacity e
          else if h = imageMaterial e then imageOpacity e else materialOpacity (foldl ?f s xs) h)"
    by (rule applyEntry_opacity)
  finally show ?thesis by (simp only: foldl_applyEntry_other [OF ox])
qed

lemma materialOpacity_animate:
  "materialOpacity (animate s) h
     = materialOpacity (foldl (\<lambda>t (fid, e). applyEntry t e) (s\<lparr>activeFades := advanced s\<rparr>) (advanced s)) h"
  by (simp add: animate_def Let_def requestAnimationFrame_def advanced_def [symmetric])

lemma unshared_advanced:
  "unshared fid h s \<Longrightarrow>
     list_all (\<lambda>(k, e). k = fid \<or> (imageMaterial e \<noteq> h \<and> placeholderMaterial e \<noteq> h)) (advanced s)"
  by (auto simp: unshared_def advanced_def list_all_iff)

lemma tick_opacity:
  assumes ok: "fade_ok s" and e: "map_of (activeFades s) fid = Some e"
      and u: "unshared fid h s"
  shows "materialOpacity (tick s) h
       = (if h = placeholderMaterial e then placeholderOpacity (advanceEntry e)
          else if h = imageMaterial e then imageOpacity (advanceEntry e) else materialOpacity s h)"
proof -
  from e have ne: "activeFades s \<noteq> []" by auto
  let ?s = "s\<lparr>frameRequests := []\<rparr>"
  have d: "distinct (map fst (advanced ?s))"
    using ok by (intro distinct_advanced) (simp add: fade_ok_def)
  have "map_of (advanced ?s) fid = Some (advanceEntry e)" using e by (simp add: map_of_advanced)
  then have m: "(fid, advanceEntry e) \<in> set (advanced ?s)" by (rule map_of_SomeD)
  have u': "unshared fid h ?s" using u by (simp add: unshared_def)
  show ?thesis
    unfolding tick_running [OF ok ne] materialOpacity_animate
    by (simp add: foldl_applyEntry_own [OF d m unshared_advanced [OF u']])
qed

lemma unshared_tick:
  assumes ok: "fade_ok s" and u: "unshared fid h s"
  shows "unshared fid h (tick s)"
proof (cases "activeFades s = []")
  case True
  with ok have "tick s = s \<or> activeFades (tick s) = []"
    by (auto simp: tick_def fade_ok_def animate_def Let_def foldl_applyEntry_fields
        requestAnimationFrame_def split: list.splits option.splits)
  with u show ?thesis by (auto simp: unshared_def)
next
  case False
  let ?s = "s\<lparr>frameRequests := []\<rparr>"
  have d: "distinct (map fst (activeFades ?s))" using ok by (simp add: fade_ok_def)
  have u': "unshared fid h ?s" using u by (simp add: unshared_def)
  have "activeFades (tick s) = filter (\<lambda>(fid, e). \<not> fadeComplete e) (advanced ?s)"
    unfolding tick_running [OF ok False] by (rule activeFades_animate [OF d])
  then show ?thesis
    using unshared_advanced [OF u'] by (auto simp: unshared_def list_all_iff)
qed

lemma activeFades_startFade:
  "activeFades (startFade fid im pm imesh pmesh s)
     = AList.update fid \<lparr>imageMaterial = im, placeholderMaterial = pm,
                    imageMesh = imesh, placeholderMesh = pmesh,
                    imageOpacity = 0, placeholderOpacity = 1\<rparr> (activeFades s)"
  by (simp add: startFade_def Let_def requestAnimationFrame_def)

lemma set_update_subset: "set (AList.update k v al) \<subseteq> insert (k, v) (set al)"
  by (induction al) auto

lemma unshared_startFade:
  assumes "unshared fid h s"
  shows "unshared fid h (startFade fid im pm imesh pmesh s)"
  unfolding unshared_def activeFades_startFade list_all_iff
proof
  fix x
  assume "x \<in> set (AList.update fid \<lparr>imageMaterial = im, placeholderMaterial = pm,
                    imageMesh = imesh, placeholderMesh = pmesh,
                    imageOpacity = 0, placeholderOpacity = 1\<rparr> (activeFades s))"
  then have "fst x = fid \<or> x \<in> set (activeFades s)"
    using set_update_subset by fastforce
  then show "case x of (k, e) \<Rightarrow> k = fid \<or> (imageMaterial e \<noteq> h \<and> placeholderMaterial e \<noteq> h)"
    using assms by (auto simp: unshared_def list_all_iff)
qed

lemma advanceEntry_opacities:
  "imageOpacity (advanceEntry e) = min 1 (imageOpacity e + FADE_IN_SPEED)"
  "placeholderOpacity (advanceEntry e) = max 0 (placeholderOpacity e - FADE_OUT_SPEED)"
  by (simp_all add: advanceEntry_def)

lemma advance_iter:
  assumes "imageOpacity e = 0" "placeholderOpacity e = 1"
  shows "imageOpacity ((advanceEntry ^^ n) e) = min 1 (real n * FADE_IN_SPEED)
       \<and> placeholderOpacity ((advanceEntry ^^ n) e) = max 0 (1 - real n * FADE_OUT_SPEED)
       \<and> imageMaterial ((advanceEntry ^^ n) e) = imageMaterial e
       \<and> placeholderMaterial ((advanceEntry ^^ n) e) = placeholderMaterial e"
proof (induction n)
  case 0
  then show ?case using assms by simp
next
  case (Suc n)
  let ?e = "(advanceEntry ^^ n) e"
  have i: "min 1 (min 1 (real n * FADE_IN_SPEED) + FADE_IN_SPEED)
      = min 1 (real (Suc n) * FADE_IN_SPEED)"
    by (simp add: FADE_IN_SPEED_def min_def algebra_simps)
  have p: "max 0 (max 0 (1 - real n * FADE_OUT_SPEED) - FADE_OUT_SPEED)
      = max 0 (1 - real (Suc n) * FADE_OUT_SPEED)"
    unfolding FADE_OUT_SPEED_def max_def by (auto simp: field_simps)
  have "(advanceEntry ^^ Suc n) e = advanceEntry ?e" by simp
  then show ?case
    using Suc i p by (simp only: advanceEntry_opacities advanceEntry_handles)
qed

lemma fadeComplete_iter:
  assumes "imageOpacity e = 0" "placeholderOpacity e = 1"
  shows "fadeComplete ((advanceEntry ^^ n) e) \<longleftrightarrow> fadeTicks \<le> n"
proof -
  have "(1 \<le> real n * (8 / 100) \<and> 1 - real n * (1 / 10) \<le> 0) \<longleftrightarrow> 13 \<le> n"
  proof -
    have "1 \<le> real n * (8 / 100) \<longleftrightarrow> 25 \<le> 2 * real n" by (simp add: field_simps)
    also have "\<dots> \<longleftrightarrow> 25 \<le> 2 * n" by (metis of_nat_le_iff of_nat_mult of_nat_numeral)
    also have "\<dots> \<longleftrightarrow> 13 \<le> n" by linarith
    finally have a: "1 \<le> real n * (8 / 100) \<longleftrightarrow> 13 \<le> n" .
    have "13 \<le> n \<Longrightarrow> 1 - real n * (1 / 10) \<le> 0" by simp
    with a show ?thesis by blast
  qed
  then show ?thesis
    using advance_iter [OF assms, of n]
    by (simp add: fadeComplete_def fadeTicks_value FADE_IN_SPEED_def FADE_OUT_SPEED_def
        min_def max_def)
qed

lemma ticks_Suc: "ticks (Suc n) s = tick (ticks n s)"
  by (simp add: ticks_def)

lemma ticks_entry:
  assumes ok: "fade_ok s" and e: "map_of (activeFades s) fid = Some e"
      and z: "imageOpacity e = 0" "placeholderOpacity e = 1"
      and u: "unshared fid h s" "unshared fid h' s"
      and n: "n < fadeTicks"
  shows "fade_ok (ticks n s) \<and> map_of (activeFades (ticks n s)) fid = Some ((advanceEntry ^^ n) e)
       \<and> unshared fid h (ticks n s) \<and> unshared fid h' (ticks n s)"
  using n
proof (induction n)
  case 0
  then show ?case using ok e u by (simp add: ticks_def)
next
  case (Suc n)
  then have ih: "fade_ok (ticks n s)" "map_of (activeFades (ticks n s)) fid = Some ((advanceEntry ^^ n) e)"
    "unshared fid h (ticks n s)" "unshared fid h' (ticks n s)" by simp_all
  have nc: "\<not> fadeComplete ((advanceEntry ^^ Suc n) e)"
    using Suc.prems by (simp only: fadeComplete_iter [OF z] not_le)
  have "map_of (activeFades (ticks (Suc n) s)) fid = Some ((advanceEntry ^^ Suc n) e)"
    unfolding ticks_Suc using tick_entry [OF ih(1,2)] nc by simp
  then show ?case
    unfolding ticks_Suc
    using fade_ok_tick [OF ih(1)] unshared_tick [OF ih(1,3)] unshared_tick [OF ih(1,4)]
    by (simp add: ticks_Suc)
qed

lemma fade_ok_ticks: "fade_ok s \<Longrightarrow> fade_ok (ticks n s)"
  by (induction n) (simp_all add: ticks_def fade_ok_tick)

text \<open>
  Claim C7. From any state of the animator, \<open>startFade\<close> followed by
  \<open>N = ceil(1 / FADE_IN_SPEED) = 13\<close> ticks: before the \<open>N\<close>-th tick the entry is
  tracked with image opacity \<open>min 1 (n * FADE_IN_SPEED)\<close> and placeholder opacity
  \<open>max 0 (1 - n * FADE_OUT_SPEED)\<close> after \<open>n\<close> ticks, both within \<open>[0, 1]\<close>, the first
  never decreasing and the second never increasing from one tick to the next; the
  \<open>N\<close>-th tick removes the entry; the two materials then carry opacity 1 and 0 (they
  are two materials, used by no other tracked entry); and when no entries remain after
  that tick the loop has stopped: no frame is requested and further ticks change nothing.
\<close>

theorem fade_converges:
  assumes ok: "fade_ok s"
      and s0: "s0 = startFade fid im pm imesh pmesh s"
      and diff: "im \<noteq> pm"
      and u: "unshared fid im s" "unshared fid pm s"
  shows "fadeTicks = 13
       \<and> (\<forall>n < fadeTicks. \<exists>e. map_of (activeFades (ticks n s0)) fid = Some e
             \<and> imageOpacity e = min 1 (real n * FADE_IN_SPEED)
             \<and> placeholderOpacity e = max 0 (1 - real n * FADE_OUT_SPEED)
             \<and> 0 \<le> imageOpacity e \<and> imageOpacity e \<le> 1
             \<and> 0 \<le> placeholderOpacity e \<and> placeholderOpacity e \<le> 1
             \<and> imageOpacity e \<le> imageOpacity (advanceEntry e)
             \<and> placeholderOpacity (advanceEntry e) \<le> placeholderOpacity e
             \<and> materialOpacity (ticks (Suc n) s0) im = imageOpacity (advanceEntry e)
             \<and> materialOpacity (ticks (Suc n) s0) pm = placeholderOpacity (advanceEntry e))
       \<and> map_of (activeFades (ticks fadeTicks s0)) fid = None
       \<and> materialOpacity (ticks fadeTicks s0) im = 1
       \<and> materialOpacity (ticks fadeTicks s0) pm = 0
       \<and> (activeFades (ticks fadeTicks s0) = [] \<longrightarrow>
            \<not> isAnimating (ticks fadeTicks s0) \<and> animationFrameId (ticks fadeTicks s0) = None
            \<and> frameRequests (ticks fadeTicks s0) = []
            \<and> tick (ticks fadeTicks s0) = ticks fadeTicks s0)"
proof -
  let ?fresh = "\<lparr>imageMaterial = im, placeholderMaterial = pm, imageMesh = imesh,
              placeholderMesh = pmesh, imageOpacity = 0, placeholderOpacity = 1\<rparr>"
  have ok0: "fade_ok s0" unfolding s0 by (rule fade_ok_startFade [OF ok])
  have e0: "map_of (activeFades s0) fid = Some ?fresh"
    unfolding s0 activeFades_startFade by (simp add: update_conv')
  have z: "imageOpacity ?fresh = 0" "placeholderOpacity ?fresh = 1" by simp_all
  have u0: "unshared fid im s0" "unshared fid pm s0"
    unfolding s0 by (rule unshared_startFade [OF u(1)], rule unshared_startFade [OF u(2)])
  note run = ticks_entry [OF ok0 e0 z u0]
  note it = advance_iter [OF z]
  have step: "\<exists>e. map_of (activeFades (ticks n s0)) fid = Some e
             \<and> imageOpacity e = min 1 (real n * FADE_IN_SPEED)
             \<and> placeholderOpacity e = max 0 (1 - real n * FADE_OUT_SPEED)
             \<and> 0 \<le> imageOpacity e \<and> imageOpacity e \<le> 1
             \<and> 0 \<le> placeholderOpacity e \<and> placeholderOpacity e \<le> 1
             \<and> imageOpacity e \<le> imageOpacity (advanceEntry e)
             \<and> placeholderOpacity (advanceEntry e) \<le> placeholderOpacity e
             \<and> materialOpacity (ticks (Suc n) s0) im = imageOpacity (advanceEntry e)
             \<and> materialOpacity (ticks (Suc n) s0) pm = placeholderOpacity (advanceEntry e)"
    if n: "n < fadeTicks" for n
  proof -
    let ?e = "(advanceEntry ^^ n) ?fresh"
    from run [OF n] have r: "fade_ok (ticks n s0)" "map_of (activeFades (ticks n s0)) fid = Some ?e"
      "unshared fid im (ticks n s0)" "unshared fid pm (ticks n s0)" by simp_all
    from it [of n] have v: "imageOpacity ?e = min 1 (real n * FADE_IN_SPEED)"
      "placeholderOpacity ?e = max 0 (1 - real n * FADE_OUT_SPEED)"
      "imageMaterial ?e = im" "placeholderMaterial ?e = pm" by simp_all
    have b: "0 \<le> imageOpacity ?e" "imageOpacity ?e \<le> 1"
      "0 \<le> placeholderOpacity ?e" "placeholderOpacity ?e \<le> 1"
      unfolding v by (simp_all add: FADE_IN_SPEED_def FADE_OUT_SPEED_def)
    have m: "imageOpacity ?e \<le> imageOpacity (advanceEntry ?e)"
      "placeholderOpacity (advanceEntry ?e) \<le> placeholderOpacity ?e"
      using b by (simp_all add: advanceEntry_opacities FADE_IN_SPEED_def FADE_OUT_SPEED_def)
    have w: "materialOpacity (ticks (Suc n) s0) im = imageOpacity (advanceEntry ?e)"
      "materialOpacity (ticks (Suc n) s0) pm = placeholderOpacity (advanceEntry ?e)"
      unfolding ticks_Suc
      using tick_opacity [OF r(1,2) r(3)] tick_opacity [OF r(1,2) r(4)] diff
      by (simp_all add: v)
    from r(2) v(1,2) b m w show ?thesis by blast
  qed
  have t13: "fadeTicks = Suc 12" by (simp add: fadeTicks_value)
  have n12: "12 < fadeTicks" by (simp add: fadeTicks_value)
  let ?e = "(advanceEntry ^^ 12) ?fresh"
  from run [OF n12] have r: "fade_ok (ticks 12 s0)"
    "map_of (activeFades (ticks 12 s0)) fid = Some ?e" by simp_all
  have "fadeComplete ((advanceEntry ^^ Suc 12) ?fresh)"
    by (simp only: fadeComplete_iter [OF z] t13)
  then have c: "fadeComplete (advanceEntry ?e)" by (simp only: funpow.simps o_apply)
  have gone: "map_of (activeFades (ticks fadeTicks s0)) fid = None"
    unfolding t13 ticks_Suc using tick_entry [OF r] c by simp
  from c have last: "imageOpacity (advanceEntry ?e) = 1" "placeholderOpacity (advanceEntry ?e) = 0"
    by (simp_all add: fadeComplete_def advanceEntry_opacities min_def max_def split: if_splits)
  from step [OF n12] r(2) last
  have mats: "materialOpacity (ticks fadeTicks s0) im = 1" "materialOpacity (ticks fadeTicks s0) pm = 0"
    unfolding t13 by auto
  have okN: "fade_ok (ticks fadeTicks s0)"
    unfolding t13 ticks_Suc by (rule fade_ok_tick [OF r(1)])
  have halt: "\<not> isAnimating (ticks fadeTicks s0) \<and> animationFrameId (ticks fadeTicks s0) = None
            \<and> frameRequests (ticks fadeTicks s0) = []
            \<and> tick (ticks fadeTicks s0) = ticks fadeTicks s0"
    if empty: "activeFades (ticks fadeTicks s0) = []"
  proof -
    from r(2) have ne: "activeFades (ticks 12 s0) \<noteq> []" by auto
    let ?t = "(ticks 12 s0)\<lparr>frameRequests := []\<rparr>"
    have tk: "ticks fadeTicks s0 = animate ?t"
      unfolding t13 ticks_Suc by (rule tick_running [OF r(1) ne])
    have d: "distinct (map fst (activeFades ?t))" using r(1) by (simp add: fade_ok_def)
    have an: "isAnimating ?t" using r(1) ne by (auto simp: fade_ok_def split: option.splits)
    from animate_control(2) [OF d _ an] empty
    have h: "\<not> isAnimating (ticks fadeTicks s0) \<and> animationFrameId (ticks fadeTicks s0) = None
            \<and> frameRequests (ticks fadeTicks s0) = []"
      unfolding tk by simp
    then have "tick (ticks fadeTicks s0) = ticks fadeTicks s0"
      by (intro tick_idle [OF okN]) simp
    with h show ?thesis by simp
  qed
  from step gone mats halt fadeTicks_value show ?thesis by blast
qed

text \<open>
  Witness: one fade started on the idle animator; after 13 ticks nothing is tracked,
  the image material is opaque, the placeholder material transparent, and no frame is
  requested.
\<close>

theorem fade_converges_witness:
  "activeFades (ticks 13 (startFade ''p'' 1 2 3 4
       (fadeInitial (\<lambda>h. 0) (\<lambda>h. False) (\<lambda>h. False)))) = []
   \<and> materialOpacity (ticks 13 (startFade ''p'' 1 2 3 4
       (fadeInitial (\<lambda>h. 0) (\<lambda>h. False) (\<lambda>h. False)))) 1 = 1
   \<and> materialOpacity (ticks 13 (startFade ''p'' 1 2 3 4
       (fadeInitial (\<lambda>h. 0) (\<lambda>h. False) (\<lambda>h. False)))) 2 = 0
   \<and> frameRequests (ticks 13 (startFade ''p'' 1 2 3 4
       (fadeInitial (\<lambda>h. 0) (\<lambda>h. False) (\<lambda>h. False)))) = []"
proof -
  let ?s = "fadeInitial (\<lambda>h. 0) (\<lambda>h. False) (\<lambda>h. False)"
  let ?st = "startFade ''p'' 1 2 3 4 ?s"
  have ok: "fade_ok ?s" by (rule fade_ok_initial)
  have u: "unshared ''p'' 1 ?s" "unshared ''p'' 2 ?s"
    by (simp_all add: unshared_def fadeInitial_def)
  have d: "(1 :: nat) \<noteq> 2" by simp
  note c = fade_converges [OF ok refl d u, of 3 4]
  from c have t: "fadeTicks = 13" by blast
  from c have gone: "map_of (activeFades (ticks 13 ?st)) ''p'' = None"
    and m: "materialOpacity (ticks 13 ?st) 1 = 1" "materialOpacity (ticks 13 ?st) 2 = 0"
    and halt: "activeFades (ticks 13 ?st) = [] \<longrightarrow> frameRequests (ticks 13 ?st) = []"
    unfolding t by blast+
  have keys: "fst ` set (activeFades (ticks n ?st)) \<subseteq> {''p''}" for n
  proof (induction n)
    case 0
    then show ?case by (simp add: ticks_def activeFades_startFade fadeInitial_def)
  next
    case (Suc n)
    have okn: "fade_ok (ticks n ?st)"
      by (rule fade_ok_ticks [OF fade_ok_startFade [OF ok]])
    show ?case
    proof (cases "activeFades (ticks n ?st) = []")
      case True
      with okn have "animationFrameId (ticks n ?st) = None \<or> activeFades (tick (ticks n ?st)) = []"
        by (auto simp: tick_def fade_ok_def animate_def Let_def foldl_applyEntry_fields
            requestAnimationFrame_def split: option.splits)
      then show ?thesis
        using True tick_idle [OF okn] by (auto simp: ticks_Suc)
    next
      case False
      let ?t = "(ticks n ?st)\<lparr>frameRequests := []\<rparr>"
      have dd: "distinct (map fst (activeFades ?t))" using okn by (simp add: fade_ok_def)
      have "activeFades (ticks (Suc n) ?st) = filter (\<lambda>(fid, e). \<not> fadeComplete e) (advanced ?t)"
        unfolding ticks_Suc tick_running [OF okn False] by (rule activeFades_animate [OF dd])
      then show ?thesis using Suc by (auto simp: advanced_def)
    qed
  qed
  have empty: "activeFades (ticks 13 ?st) = []"
  proof (rule ccontr)
    assume "activeFades (ticks 13 ?st) \<noteq> []"
    then obtain k e where ke: "(k, e) \<in> set (activeFades (ticks 13 ?st))"
      by (cases "activeFades (ticks 13 ?st)") auto
    with keys [of 13] have "k = ''p''" by force
    with ke have "''p'' \<in> fst ` set (activeFades (ticks 13 ?st))" by force
    with gone show False by (simp add: map_of_eq_None_iff)
  qed
  with m halt show ?thesis by simp
qed

section \<open>The texture loader\<close>

lemma processQueue_stop:
  "\<not> (activeLoads s < MAX_CONCURRENT_LOADS \<and> loadQueue s \<noteq> []) \<Longrightarrow> processQueue s = s"
  by (subst processQueue.simps) auto

lemma processQueue_skip:
  assumes "activeLoads s < MAX_CONCURRENT_LOADS" "loadQueue s = u # q"
      and "u = [] \<or> u \<in> set (loadingUrls s)"
  shows "processQueue s = processQueue (s\<lparr>loadQueue := q\<rparr>)"
  using assms by (subst processQueue.simps) (auto simp: Let_def)

lemma processQueue_hit:
  assumes "activeLoads s < MAX_CONCURRENT_LOADS" "loadQueue s = u # q"
      and "u \<noteq> []" "u \<notin> set (loadingUrls s)" "map_of (textureCache s) u = Some tex"
  shows "processQueue s = processQueue (fireCallbacks u tex (s\<lparr>loadQueue := q\<rparr>))"
  using assms by (subst processQueue.simps) (auto simp: Let_def)

lemma processQueue_start:
  assumes "activeLoads s < MAX_CONCURRENT_LOADS" "loadQueue s = u # q"
      and "u \<noteq> []" "u \<notin> set (loadingUrls s)" "map_of (textureCache s) u = None"
  shows "processQueue s =
           s\<lparr>loadQueue := q, activeLoads := activeLoads s + 1,
             loadingUrls := loadingUrls s @ [u], fetchStarted := fetchStarted s @ [u],
                          inFlight := inFlight s @ [u]\<rparr>"
  using assms by (subst processQueue.simps) (auto simp: Let_def)

lemma invoke_fields [simp]:
  "textureCache (invoke tex s cb) = textureCache s"
  "loadCallbacks (invoke tex s cb) = loadCallbacks s"
  "textureLastUsed (invoke tex s cb) = textureLastUsed s"
  "loadQueue (invoke tex s cb) = loadQueue s"
  "activeLoads (invoke tex s cb) = activeLoads s"
  "loadingUrls (invoke tex s cb) = loadingUrls s"
  "fetchStarted (invoke tex s cb) = fetchStarted s"
  "inFlight (invoke tex s cb) = inFlight s"
  "texturesCreated (invoke tex s cb) = texturesCreated s"
  "disposed (invoke tex s cb) = disposed s"
  "loadErrors (invoke tex s cb) = loadErrors s"
  "timers (invoke tex s cb) = timers s"
  "invoked (invoke tex s cb) = invoked s @ [(cb, tex)]"
  by (cases cb; simp add: invoke_def reportProgress_def Let_def)+

lemma foldl_invoke_fields [simp]:
  "textureCache (foldl (invoke tex) s cbs) = textureCache s"
  "loadCallbacks (foldl (invoke tex) s cbs) = loadCallbacks s"
  "textureLastUsed (foldl (invoke tex) s cbs) = textureLastUsed s"
  "loadQueue (foldl (invoke tex) s cbs) = loadQueue s"
  "activeLoads (foldl (invoke tex) s cbs) = activeLoads s"
  "loadingUrls (foldl (invoke tex) s cbs) = loadingUrls s"
  "fetchStarted (foldl (invoke tex) s cbs) = fetchStarted s"
  "inFlight (foldl (invoke tex) s cbs) = inFlight s"
  "texturesCreated (foldl (invoke tex) s cbs) = texturesCreated s"
  "disposed (foldl (invoke tex) s cbs) = disposed s"
  "loadErrors (foldl (invoke tex) s cbs) = loadErrors s"
  "timers (foldl (invoke tex) s cbs) = timers s"
  "invoked (foldl (invoke tex) s cbs) = invoked s @ map (\<lambda>cb. (cb, tex)) cbs"
  by (induction cbs arbitrary: s; simp)+

lemma fireCallbacks_fields [simp]:
  "textureCache (fireCallbacks u tex s) = textureCache s"
  "textureLastUsed (fireCallbacks u tex s) = textureLastUsed s"
  "loadQueue (fireCallbacks u tex s) = loadQueue s"
  "activeLoads (fireCallbacks u tex s) = activeLoads s"
  "loadingUrls (fireCallbacks u tex s) = loadingUrls s"
  "fetchStarted (fireCallbacks u tex s) = fetchStarted s"
  "inFlight (fireCallbacks u tex s) = inFlight s"
  "texturesCreated (fireCallbacks u tex s) = texturesCreated s"
  "disposed (fireCallbacks u tex s) = disposed s"
  "loadErrors (fireCallbacks u tex s) = loadErrors s"
  "timers (fireCallbacks u tex s) = timers s"
  "loadCallbacks (fireCallbacks u tex s) = AList.delete u (loadCallbacks s)"
  "invoked (fireCallbacks u tex s)
     = invoked s @ map (\<lambda>cb. (cb, tex)) (case map_of (loadCallbacks s) u of None \<Rightarrow> [] | Some cs \<Rightarrow> cs)"
  by (simp_all add: fireCallbacks_def Let_def)

text \<open>
  A rule for facts \<open>R s (processQueue s)\<close> about one invocation: one case for leaving
  the loop, one for each way around it, one for suspending at the load.
\<close>

lemma processQueue_rule [case_names stop skip hit start]:
  assumes stop: "\<And>s. \<not> (activeLoads s < MAX_CONCURRENT_LOADS \<and> loadQueue s \<noteq> []) \<Longrightarrow> R s s"
      and skip: "\<And>s u q r. activeLoads s < MAX_CONCURRENT_LOADS \<Longrightarrow> loadQueue s = u # q \<Longrightarrow>
                   u = [] \<or> u \<in> set (loadingUrls s) \<Longrightarrow> R (s\<lparr>loadQueue := q\<rparr>) r \<Longrightarrow> R s r"
      and hit: "\<And>s u q tex r. activeLoads s < MAX_CONCURRENT_LOADS \<Longrightarrow> loadQueue s = u # q \<Longrightarrow>
                   u \<noteq> [] \<Longrightarrow> u \<notin> set (loadingUrls s) \<Longrightarrow> map_of (textureCache s) u = Some tex \<Longrightarrow>
                   R (fireCallbacks u tex (s\<lparr>loadQueue := q\<rparr>)) r \<Longrightarrow> R s r"
      and start: "\<And>s u q. activeLoads s < MAX_CONCURRENT_LOADS \<Longrightarrow> loadQueue s = u # q \<Longrightarrow>
                   u \<noteq> [] \<Longrightarrow> u \<notin> set (loadingUrls s) \<Longrightarrow> map_of (textureCache s) u = None \<Longrightarrow>
                   R s (s\<lparr>loadQueue := q, activeLoads := activeLoads s + 1,
                          loadingUrls := loadingUrls s @ [u], fetchStarted := fetchStarted s @ [u],
                          inFlight := inFlight s @ [u]\<rparr>)"
  shows "R s (processQueue s)"
proof (induction s rule: processQueue.induct)
  case (1 s)
  show ?case
  proof (cases "activeLoads s < MAX_CONCURRENT_LOADS \<and> loadQueue s \<noteq> []")
    case False
    then show ?thesis using stop [OF False] by (simp add: processQueue_stop)
  next
    case True
    then obtain u q where q: "loadQueue s = u # q" by (cases "loadQueue s") auto
    from True have a: "activeLoads s < MAX_CONCURRENT_LOADS" by simp
    let ?s1 = "s\<lparr>loadQueue := tl (loadQueue s)\<rparr>"
    have s1: "?s1 = s\<lparr>loadQueue := q\<rparr>" by (simp add: q)
    have hd: "hd (loadQueue s) = u" by (simp add: q)
    show ?thesis
    proof (cases "u = [] \<or> u \<in> set (loadingUrls s)")
      case sk: True
      from "1.IH"(1) [OF True refl refl] sk hd
      have "R ?s1 (processQueue ?s1)" by simp
      then have "R s (processQueue (s\<lparr>loadQueue := q\<rparr>))"
        unfolding s1 by (rule skip [OF a q sk])
      then show ?thesis by (simp only: processQueue_skip [OF a q sk])
    next
      case noskip: False
      then have n: "u \<noteq> []" "u \<notin> set (loadingUrls s)" by simp_all
      show ?thesis
      proof (cases "map_of (textureCache s) u")
        case None
        from start [OF a q n None] show ?thesis
          by (simp only: processQueue_start [OF a q n None])
      next
        case (Some tex)
        from "1.IH"(2) [OF True refl refl _ _ , of tex] noskip hd Some
        have "R (fireCallbacks u tex ?s1) (processQueue (fireCallbacks u tex ?s1))" by simp
        then have "R s (processQueue (fireCallbacks u tex (s\<lparr>loadQueue := q\<rparr>)))"
          unfolding s1 by (rule hit [OF a q n Some])
        then show ?thesis by (simp only: processQueue_hit [OF a q n Some])
      qed
    qed
  qed
qed

lemma processQueue_keeps:
  "textureCache (processQueue s) = textureCache s
   \<and> textureLastUsed (processQueue s) = textureLastUsed s
   \<and> texturesCreated (processQueue s) = texturesCreated s
   \<and> disposed (processQueue s) = disposed s
   \<and> loadErrors (processQueue s) = loadErrors s
   \<and> timers (processQueue s) = timers s"
  by (induction s rule: processQueue_rule) simp_all

lemma processQueue_absent:
  "u \<notin> set (loadQueue s) \<longrightarrow>
     u \<notin> set (loadQueue (processQueue s))
     \<and> (u \<in> set (loadingUrls (processQueue s)) \<longleftrightarrow> u \<in> set (loadingUrls s))
     \<and> count_list (loadingUrls (processQueue s)) u = count_list (loadingUrls s) u
     \<and> count_list (fetchStarted (processQueue s)) u = count_list (fetchStarted s) u"
  by (induction s rule: processQueue_rule) auto

lemma processQueue_pending:
  "u \<noteq> [] \<and> u \<notin> set (loadingUrls s) \<and> map_of (textureCache s) u = None
     \<and> count_list (loadQueue s) u = 1 \<longrightarrow>
   (count_list (loadQueue (processQueue s)) u = 1 \<and> u \<notin> set (loadingUrls (processQueue s))
      \<and> count_list (fetchStarted (processQueue s)) u = count_list (fetchStarted s) u)
   \<or> (u \<notin> set (loadQueue (processQueue s)) \<and> count_list (loadingUrls (processQueue s)) u = 1
      \<and> count_list (fetchStarted (processQueue s)) u = Suc (count_list (fetchStarted s) u))"
proof (induction s rule: processQueue_rule)
  case (stop s)
  then show ?case by simp
next
  case (skip s v q r)
  then show ?case by (auto split: if_splits)
next
  case (hit s v q tex r)
  then show ?case by (auto split: if_splits)
next
  case (start s v q)
  then show ?case by (auto simp: count_list_0_iff split: if_splits)
qed

lemma processQueue_callbacks:
  "map_of (textureCache s) u = None \<longrightarrow>
     map_of (loadCallbacks (processQueue s)) u = map_of (loadCallbacks s) u"
proof (induction s rule: processQueue_rule)
  case (hit s v q tex r)
  then show ?case by (auto simp: delete_conv')
qed simp_all

lemma processQueue_invoked: "\<exists>rest. invoked (processQueue s) = invoked s @ rest"
  by (induction s rule: processQueue_rule) auto

lemma processQueue_distinct:
  "distinct (loadQueue s @ loadingUrls s) \<longrightarrow>
     distinct (loadQueue (processQueue s) @ loadingUrls (processQueue s))"
  by (induction s rule: processQueue_rule) auto

lemma evictOne_fields [simp]:
  "loadCallbacks (evictOne s u) = loadCallbacks s"
  "loadQueue (evictOne s u) = loadQueue s"
  "activeLoads (evictOne s u) = activeLoads s"
  "loadingUrls (evictOne s u) = loadingUrls s"
  "fetchStarted (evictOne s u) = fetchStarted s"
  "inFlight (evictOne s u) = inFlight s"
  "texturesCreated (evictOne s u) = texturesCreated s"
  "invoked (evictOne s u) = invoked s"
  "loadErrors (evictOne s u) = loadErrors s"
  "timers (evictOne s u) = timers s"
  "pl_progress (evictOne s u) = pl_progress s"
  "pl_resolved (evictOne s u) = pl_resolved s"
  by (simp_all add: evictOne_def split: option.splits)

lemma foldl_evictOne_fields [simp]:
  "loadCallbacks (foldl evictOne s us) = loadCallbacks s"
  "loadQueue (foldl evictOne s us) = loadQueue s"
  "activeLoads (foldl evictOne s us) = activeLoads s"
  "loadingUrls (foldl evictOne s us) = loadingUrls s"
  "fetchStarted (foldl evictOne s us) = fetchStarted s"
  "inFlight (foldl evictOne s us) = inFlight s"
  "texturesCreated (foldl evictOne s us) = texturesCreated s"
  "invoked (foldl evictOne s us) = invoked s"
  "loadErrors (foldl evictOne s us) = loadErrors s"
  "timers (foldl evictOne s us) = timers s"
  "pl_progress (foldl evictOne s us) = pl_progress s"
  "pl_resolved (foldl evictOne s us) = pl_resolved s"
  by (induction us arbitrary: s; simp)+

lemma evictOldTextures_fields [simp]:
  "loadCallbacks (evictOldTextures s) = loadCallbacks s"
  "loadQueue (evictOldTextures s) = loadQueue s"
  "activeLoads (evictOldTextures s) = activeLoads s"
  "loadingUrls (evictOldTextures s) = loadingUrls s"
  "fetchStarted (evictOldTextures s) = fetchStarted s"
  "inFlight (evictOldTextures s) = inFlight s"
  "texturesCreated (evictOldTextures s) = texturesCreated s"
  "invoked (evictOldTextures s) = invoked s"
  "loadErrors (evictOldTextures s) = loadErrors s"
  "timers (evictOldTextures s) = timers s"
  "pl_progress (evictOldTextures s) = pl_progress s"
  "pl_resolved (evictOldTextures s) = pl_resolved s"
  by (simp_all add: evictOldTextures_def Let_def)

lemma addCallback_fields [simp]:
  "textureCache (addCallback u cb s) = textureCache s"
  "textureLastUsed (addCallback u cb s) = textureLastUsed s"
  "loadQueue (addCallback u cb s) = loadQueue s"
  "activeLoads (addCallback u cb s) = activeLoads s"
  "loadingUrls (addCallback u cb s) = loadingUrls s"
  "fetchStarted (addCallback u cb s) = fetchStarted s"
  "inFlight (addCallback u cb s) = inFlight s"
  "texturesCreated (addCallback u cb s) = texturesCreated s"
  "invoked (addCallback u cb s) = invoked s"
  "map_of (loadCallbacks (addCallback u cb s)) u
     = Some (let cbs = (case map_of (loadCallbacks s) u of None \<Rightarrow> [] | Some cs \<Rightarrow> cs)
             in if cb \<in> set cbs then cbs else cbs @ [cb])"
  by (simp_all add: addCallback_def Let_def update_conv')

text \<open>The first request for a URL that is neither cached nor pending.\<close>

lemma getTexture_fresh:
  assumes u: "url item = u" "u \<noteq> []"
      and fresh: "map_of (textureCache s) u = None" "u \<notin> set (loadQueue s)" "u \<notin> set (loadingUrls s)"
      and old: "old = (case map_of (loadCallbacks s) u of None \<Rightarrow> [] | Some cs \<Rightarrow> cs)"
      and new: "cb \<notin> set old"
      and s1: "s1 = getTexture item (Some cb) now s"
  shows "map_of (textureCache s1) u = None"
    and "map_of (loadCallbacks s1) u = Some (old @ [cb])"
    and "count_list (loadQueue s1 @ loadingUrls s1) u = 1"
    and "count_list (fetchStarted s1) u
           = count_list (fetchStarted s) u + (if u \<in> set (loadingUrls s1) then 1 else 0)"
    and "activeLoads s < MAX_CONCURRENT_LOADS \<Longrightarrow> loadQueue s = [] \<Longrightarrow>
           fetchStarted s1 = fetchStarted s @ [u] \<and> loadingUrls s1 = loadingUrls s @ [u]
           \<and> loadQueue s1 = []"
proof -
  let ?a = "addCallback u cb (s\<lparr>textureLastUsed := AList.update u now (textureLastUsed s)\<rparr>)"
  let ?p = "?a\<lparr>loadQueue := loadQueue ?a @ [u]\<rparr>"
  have s1': "s1 = processQueue ?p"
    using u fresh by (simp add: s1 getTexture_def Let_def)
  have pc: "map_of (textureCache ?p) u = None" using fresh by simp
  have pq: "count_list (loadQueue ?p) u = 1" using fresh by (simp add: count_list_0_iff)
  have pl: "u \<notin> set (loadingUrls ?p)" using fresh by simp
  show "map_of (textureCache s1) u = None"
    unfolding s1' using processQueue_keeps [of ?p] pc by simp
  have "map_of (loadCallbacks ?p) u = Some (old @ [cb])"
    using new by (simp add: old Let_def)
  then show "map_of (loadCallbacks s1) u = Some (old @ [cb])"
    unfolding s1' using processQueue_callbacks [of ?p u] pc by simp
  from processQueue_pending [of u ?p] u(2) pl pc pq
  have d: "(count_list (loadQueue s1) u = 1 \<and> u \<notin> set (loadingUrls s1)
      \<and> count_list (fetchStarted s1) u = count_list (fetchStarted s) u)
   \<or> (u \<notin> set (loadQueue s1) \<and> count_list (loadingUrls s1) u = 1
      \<and> count_list (fetchStarted s1) u = Suc (count_list (fetchStarted s) u))"
    unfolding s1' by simp
  then show "count_list (loadQueue s1 @ loadingUrls s1) u = 1"
    by (auto simp: count_list_0_iff)
  from d show "count_list (fetchStarted s1) u
           = count_list (fetchStarted s) u + (if u \<in> set (loadingUrls s1) then 1 else 0)"
    by (auto simp: count_list_0_iff)
  show "activeLoads s < MAX_CONCURRENT_LOADS \<Longrightarrow> loadQueue s = [] \<Longrightarrow>
           fetchStarted s1 = fetchStarted s @ [u] \<and> loadingUrls s1 = loadingUrls s @ [u]
           \<and> loadQueue s1 = []"
  proof -
    assume a: "activeLoads s < MAX_CONCURRENT_LOADS" "loadQueue s = []"
    have "processQueue ?p = ?p\<lparr>loadQueue := [], activeLoads := activeLoads ?p + 1,
             loadingUrls := loadingUrls ?p @ [u], fetchStarted := fetchStarted ?p @ [u],
             inFlight := inFlight ?p @ [u]\<rparr>"
      using a u(2) pl pc by (intro processQueue_start) simp_all
    then show ?thesis unfolding s1' by simp
  qed
qed

text \<open>A request for a URL that is pending: only the callback is added.\<close>

lemma getTexture_pending:
  assumes u: "url item = u"
      and c: "map_of (textureCache s) u = None"
      and p: "u \<in> set (loadingUrls s) \<or> u \<in> set (loadQueue s)"
      and s2: "s2 = getTexture item (Some cb) now s"
  shows "loadQueue s2 = loadQueue s" "loadingUrls s2 = loadingUrls s"
    "fetchStarted s2 = fetchStarted s" "activeLoads s2 = activeLoads s"
    "textureCache s2 = textureCache s" "invoked s2 = invoked s"
    "texturesCreated s2 = texturesCreated s"
    "map_of (loadCallbacks s2) u
       = Some (let cbs = (case map_of (loadCallbacks s) u of None \<Rightarrow> [] | Some cs \<Rightarrow> cs)
               in if cb \<in> set cbs then cbs else cbs @ [cb])"
proof -
  have "s2 = addCallback u cb (s\<lparr>textureLastUsed := AList.update u now (textureLastUsed s)\<rparr>)"
    using u c p by (auto simp: s2 getTexture_def Let_def)
  then show "loadQueue s2 = loadQueue s" "loadingUrls s2 = loadingUrls s"
    "fetchStarted s2 = fetchStarted s" "activeLoads s2 = activeLoads s"
    "textureCache s2 = textureCache s" "invoked s2 = invoked s"
    "texturesCreated s2 = texturesCreated s"
    "map_of (loadCallbacks s2) u
       = Some (let cbs = (case map_of (loadCallbacks s) u of None \<Rightarrow> [] | Some cs \<Rightarrow> cs)
               in if cb \<in> set cbs then cbs else cbs @ [cb])"
    by simp_all
qed

text \<open>The load of a URL succeeds: its callbacks run in order, with the new texture.\<close>

lemma loadFinished_success:
  assumes q: "u \<notin> set (loadQueue s)"
      and cbs: "map_of (loadCallbacks s) u = Some cbs"
      and s3: "s3 = loadFinished u True now s"
  shows "\<exists>rest. invoked s3 = invoked s @ map (\<lambda>cb. (cb, texturesCreated s)) cbs @ rest"
    and "count_list (fetchStarted s3) u = count_list (fetchStarted s) u"
    and "u \<notin> set (loadingUrls s3)" and "u \<notin> set (loadQueue s3)"
proof -
  let ?t = "s\<lparr>texturesCreated := Suc (texturesCreated s),
               textureCache := AList.update u (texturesCreated s) (textureCache s),
               textureLastUsed := AList.update u now (textureLastUsed s)\<rparr>"
  let ?e = "evictOldTextures (fireCallbacks u (texturesCreated s) ?t)"
  let ?x = "?e\<lparr>activeLoads := activeLoads ?e - 1, loadingUrls := removeAll u (loadingUrls ?e),
               inFlight := remove1 u (inFlight ?e)\<rparr>"
  have s3': "s3 = processQueue ?x" by (simp add: s3 loadFinished_def Let_def)
  have i: "invoked ?x = invoked s @ map (\<lambda>cb. (cb, texturesCreated s)) cbs"
    using cbs by simp
  from processQueue_invoked [of ?x] obtain rest where "invoked s3 = invoked ?x @ rest"
    unfolding s3' by blast
  then show "\<exists>rest. invoked s3 = invoked s @ map (\<lambda>cb. (cb, texturesCreated s)) cbs @ rest"
    unfolding i by simp
  have xq: "u \<notin> set (loadQueue ?x)" using q by simp
  from processQueue_absent [of u ?x] xq
  show "count_list (fetchStarted s3) u = count_list (fetchStarted s) u"
    and "u \<notin> set (loadingUrls s3)" and "u \<notin> set (loadQueue s3)"
    unfolding s3' by simp_all
qed

lemma awaited_pending: "awaited u base was cbs s \<Longrightarrow> u \<in> set (loadingUrls s) \<or> u \<in> set (loadQueue s)"
proof -
  assume "awaited u base was cbs s"
  then have "count_list (loadQueue s) u + count_list (loadingUrls s) u = 1"
    by (simp add: awaited_def)
  then have "count_list (loadQueue s) u \<noteq> 0 \<or> count_list (loadingUrls s) u \<noteq> 0" by arith
  then show ?thesis by (auto simp: count_list_0_iff)
qed

lemma processQueue_awaited:
  assumes "awaited u base was cbs s"
  shows "awaited u base was cbs (processQueue s)"
proof -
  from assms have u: "u \<noteq> []" and c: "map_of (textureCache s) u = None"
    and n: "count_list (loadQueue s) u + count_list (loadingUrls s) u = 1"
    and w: "was \<longrightarrow> u \<in> set (loadingUrls s)"
    and f: "count_list (fetchStarted s) u
              = base + (if u \<in> set (loadingUrls s) \<and> \<not> was then 1 else 0)"
    and cb: "\<exists>more. map_of (loadCallbacks s) u = Some (cbs @ more)"
    by (simp_all add: awaited_def)
  have c': "map_of (textureCache (processQueue s)) u = None"
    using processQueue_keeps [of s] c by simp
  have cb': "\<exists>more. map_of (loadCallbacks (processQueue s)) u = Some (cbs @ more)"
    using processQueue_callbacks [of s u] c cb by simp
  show ?thesis
  proof (cases "u \<in> set (loadQueue s)")
    case True
    then have "count_list (loadQueue s) u \<noteq> 0" by (simp add: count_list_0_iff)
    with n have q: "count_list (loadQueue s) u = 1" and l0: "count_list (loadingUrls s) u = 0"
      by arith+
    from l0 have l: "u \<notin> set (loadingUrls s)" by (simp add: count_list_0_iff)
    from processQueue_pending [of u s] u l c q f w
    show ?thesis
      unfolding awaited_def using u c' cb' by (auto simp: count_list_0_iff)
  next
    case False
    with n have l: "count_list (loadingUrls s) u = 1" by (simp add: count_list_0_iff)
    then have "count_list (loadingUrls s) u \<noteq> 0" by simp
    then have "u \<in> set (loadingUrls s)" by (simp add: count_list_0_iff)
    with processQueue_absent [of u s] False l f w
    show ?thesis
      unfolding awaited_def using u c' cb' by (auto simp: count_list_0_iff)
  qed
qed

lemma awaited_cong:
  assumes "awaited u base was cbs s"
      and "textureCache s' = textureCache s" "loadQueue s' = loadQueue s"
      and "loadingUrls s' = loadingUrls s" "fetchStarted s' = fetchStarted s"
      and "map_of (loadCallbacks s') u = map_of (loadCallbacks s) u"
  shows "awaited u base was cbs s'"
  using assms by (simp add: awaited_def)

lemma invoke_callbacks_etc:
  "awaited u base was cbs s \<Longrightarrow> awaited u base was cbs (invoke tex s cb)"
  by (erule awaited_cong) simp_all

lemma awaited_push:
  assumes "awaited u base was cbs s" "v \<noteq> u"
  shows "awaited u base was cbs (s\<lparr>loadQueue := loadQueue s @ [v]\<rparr>)"
  using assms by (simp add: awaited_def)

lemma getTexture_awaited:
  assumes a: "awaited u base was cbs s"
  shows "awaited u base was cbs (getTexture item onLoad now s)"
proof -
  let ?v = "url item"
  let ?s1 = "s\<lparr>textureLastUsed := AList.update ?v now (textureLastUsed s)\<rparr>"
  have a1: "awaited u base was cbs ?s1" using a by (rule awaited_cong) simp_all
  show ?thesis
  proof (cases "map_of (textureCache s) ?v")
    case (Some existing)
    then show ?thesis
      using a1 by (cases onLoad) (simp_all add: getTexture_def Let_def invoke_callbacks_etc)
  next
    case None
    let ?s2 = "case onLoad of None \<Rightarrow> ?s1 | Some cb \<Rightarrow> addCallback ?v cb ?s1"
    have g: "getTexture item onLoad now s
        = (if ?v \<in> set (loadingUrls ?s2) \<or> ?v \<in> set (loadQueue ?s2) then ?s2
           else processQueue (?s2\<lparr>loadQueue := loadQueue ?s2 @ [?v]\<rparr>))"
      using None by (simp add: getTexture_def Let_def)
    have a2: "awaited u base was cbs ?s2"
    proof (cases onLoad)
      case None
      then show ?thesis using a1 by simp
    next
      case (Some cb)
      show ?thesis
      proof (cases "?v = u")
        case True
        from a1 obtain more where m: "map_of (loadCallbacks ?s1) u = Some (cbs @ more)"
          by (auto simp: awaited_def)
        have "\<exists>more'. map_of (loadCallbacks (addCallback u cb ?s1)) u = Some (cbs @ more')"
        proof (cases "cb \<in> set (cbs @ more)")
          case True
          then show ?thesis using m by (simp add: Let_def del: set_append)
        next
          case False
          then have "map_of (loadCallbacks (addCallback u cb ?s1)) u = Some (cbs @ (more @ [cb]))"
            using m by (simp add: Let_def del: set_append)
          then show ?thesis by blast
        qed
        with a1 show ?thesis using True Some by (simp add: awaited_def)
      next
        case False
        have "map_of (loadCallbacks (addCallback ?v cb ?s1)) u = map_of (loadCallbacks ?s1) u"
          using False by (simp add: addCallback_def Let_def update_conv')
        with a1 show ?thesis using Some by (intro awaited_cong [OF a1]) simp_all
      qed
    qed
    show ?thesis
    proof (cases "?v \<in> set (loadingUrls ?s2) \<or> ?v \<in> set (loadQueue ?s2)")
      case True
      then show ?thesis using g a2 by simp
    next
      case False
      with awaited_pending [OF a2] have "?v \<noteq> u" by auto
      from processQueue_awaited [OF awaited_push [OF a2 this]] False g
      show ?thesis by simp
    qed
  qed
qed

lemma evict_uncached:
  "map_of (textureCache s) u = None \<Longrightarrow> map_of (textureCache (evictOldTextures s)) u = None"
proof -
  have one: "map_of (textureCache (evictOne t w)) u = None" if "map_of (textureCache t) u = None" for t w
    using that by (simp add: evictOne_def delete_conv' split: option.splits)
  have "map_of (textureCache (foldl evictOne t ws)) u = None" if "map_of (textureCache t) u = None" for t ws
    using that by (induction ws arbitrary: t) (simp_all add: one)
  then show "map_of (textureCache s) u = None \<Longrightarrow> ?thesis"
    by (simp add: evictOldTextures_def Let_def)
qed

lemma loadFinished_awaited:
  assumes a: "awaited u base was cbs s" and v: "v \<noteq> u"
  shows "awaited u base was cbs (loadFinished v success now s)"
proof -
  let ?s1 = "if success
             then evictOldTextures (fireCallbacks v (texturesCreated s)
                    (s\<lparr>texturesCreated := Suc (texturesCreated s),
                       textureCache := AList.update v (texturesCreated s) (textureCache s),
                       textureLastUsed := AList.update v now (textureLastUsed s)\<rparr>))
             else s\<lparr>loadErrors := loadErrors s @ [v]\<rparr>"
  let ?s3 = "?s1\<lparr>activeLoads := activeLoads ?s1 - 1, loadingUrls := removeAll v (loadingUrls ?s1),
                 inFlight := remove1 v (inFlight ?s1)\<rparr>"
  have l: "loadFinished v success now s = processQueue ?s3"
    by (simp add: loadFinished_def Let_def)
  from a have u: "u \<noteq> []" and c: "map_of (textureCache s) u = None"
    and n: "count_list (loadQueue s @ loadingUrls s) u = 1"
    and w: "was \<longrightarrow> u \<in> set (loadingUrls s)"
    and f: "count_list (fetchStarted s) u
              = base + (if u \<in> set (loadingUrls s) \<and> \<not> was then 1 else 0)"
    and cb: "\<exists>more. map_of (loadCallbacks s) u = Some (cbs @ more)"
    by (simp_all add: awaited_def)
  have c3: "map_of (textureCache ?s3) u = None"
    using c v by (auto intro!: evict_uncached simp: update_conv')
  have q3: "loadQueue ?s3 = loadQueue s" by simp
  have l3: "loadingUrls ?s3 = removeAll v (loadingUrls s)" by simp
  have f3: "fetchStarted ?s3 = fetchStarted s" by simp
  have cb3: "map_of (loadCallbacks ?s3) u = map_of (loadCallbacks s) u"
    using v by (simp add: delete_conv')
  have cnt: "count_list (removeAll v xs) u = count_list xs u" for xs
    using v by (induction xs) auto
  have "awaited u base was cbs ?s3"
    unfolding awaited_def using u c3 n f w cb v
    by (simp only: q3 l3 f3 cb3 count_list_append cnt) auto
  then show ?thesis unfolding l by (rule processQueue_awaited)
qed

lemma preloadTextures_awaited:
  assumes a: "awaited u base was cbs s"
  shows "awaited u base was cbs (preloadTextures items s)"
proof -
  let ?f = "\<lambda>t item.
                 if url item \<in> fst ` set (textureCache t) \<or> url item \<in> set (loadingUrls t)
                    \<or> url item \<in> set (loadQueue t)
                 then t else t\<lparr>loadQueue := loadQueue t @ [url item]\<rparr>"
  have "awaited u base was cbs (foldl ?f t items)" if "awaited u base was cbs t" for t
    using that
  proof (induction items arbitrary: t)
    case Nil
    then show ?case by simp
  next
    case (Cons item items)
    have "awaited u base was cbs (?f t item)"
    proof (cases "url item \<in> fst ` set (textureCache t) \<or> url item \<in> set (loadingUrls t)
                    \<or> url item \<in> set (loadQueue t)")
      case True
      then show ?thesis using Cons.prems by simp
    next
      case False
      with awaited_pending [OF Cons.prems] have "url item \<noteq> u" by auto
      from awaited_push [OF Cons.prems this] False show ?thesis by simp
    qed
    from Cons.IH [OF this] show ?case by simp
  qed
  from processQueue_awaited [OF this [OF a]] show ?thesis by (simp add: preloadTextures_def)
qed

lemma timerFired_awaited:
  assumes a: "awaited u base was cbs s"
  shows "awaited u base was cbs (timerFired s)"
proof (cases "timers s = 0")
  case True
  then show ?thesis using a by (simp add: timerFired_def)
next
  case False
  have "awaited u base was cbs (s\<lparr>timers := timers s - 1\<rparr>)" using a by (rule awaited_cong) simp_all
  from processQueue_awaited [OF this] False show ?thesis by (simp add: timerFired_def)
qed

lemma runEvents_awaited:
  assumes "awaited u base was cbs s" "list_all (\<lambda>e. \<not> settles u e \<and> \<not> clears e) evs"
  shows "awaited u base was cbs (runEvents evs s)"
  using assms unfolding runEvents_def
proof (induction evs arbitrary: s)
  case Nil
  then show ?case by simp
next
  case (Cons e evs)
  have "awaited u base was cbs (applyEvent s e)"
  proof (cases e)
    case (Request item onLoad now)
    then show ?thesis using Cons.prems(1) by (simp add: getTexture_awaited)
  next
    case (Preload items)
    then show ?thesis using Cons.prems(1) by (simp add: preloadTextures_awaited)
  next
    case (Finished v success now)
    with Cons.prems(2) have "v \<noteq> u" by simp
    then show ?thesis using Cons.prems(1) Finished by (simp add: loadFinished_awaited)
  next
    case Timer
    then show ?thesis using Cons.prems(1) by (simp add: timerFired_awaited)
  next
    case Clear
    with Cons.prems(2) show ?thesis by simp
  qed
  with Cons show ?case by simp
qed

text \<open>
  A fetch is only ever started by \<^verbatim>\<open>processQueue\<close>, which skips the empty URL: no event
  starts a fetch for it.
\<close>

lemma processQueue_empty:
  "count_list (fetchStarted (processQueue s)) [] = count_list (fetchStarted s) []"
  by (induction s rule: processQueue_rule) simp_all

lemma preload_push_fields:
  "fetchStarted (foldl (\<lambda>t item.
                 if url item \<in> fst ` set (textureCache t) \<or> url item \<in> set (loadingUrls t)
                    \<or> url item \<in> set (loadQueue t)
                 then t else t\<lparr>loadQueue := loadQueue t @ [url item]\<rparr>) s items) = fetchStarted s"
  "loadingUrls (foldl (\<lambda>t item.
                 if url item \<in> fst ` set (textureCache t) \<or> url item \<in> set (loadingUrls t)
                    \<or> url item \<in> set (loadQueue t)
                 then t else t\<lparr>loadQueue := loadQueue t @ [url item]\<rparr>) s items) = loadingUrls s"
  "inFlight (foldl (\<lambda>t item.
                 if url item \<in> fst ` set (textureCache t) \<or> url item \<in> set (loadingUrls t)
                    \<or> url item \<in> set (loadQueue t)
                 then t else t\<lparr>loadQueue := loadQueue t @ [url item]\<rparr>) s items) = inFlight s"
  by (induction items arbitrary: s; simp)+

lemma applyEvent_empty:
  "count_list (fetchStarted (applyEvent s e)) [] = count_list (fetchStarted s) []"
proof (cases e)
  case (Request item onLoad now)
  then show ?thesis
    by (simp add: getTexture_def Let_def processQueue_empty split: option.splits)
next
  case (Preload items)
  then show ?thesis by (simp add: preloadTextures_def processQueue_empty preload_push_fields)
next
  case (Finished u success now)
  then show ?thesis by (simp add: loadFinished_def Let_def processQueue_empty)
next
  case Timer
  then show ?thesis by (simp add: timerFired_def processQueue_empty)
next
  case Clear
  then show ?thesis by (simp add: clearTextureCache_def)
qed

lemma runEvents_empty:
  "count_list (fetchStarted (runEvents evs s)) [] = count_list (fetchStarted s) []"
  unfolding runEvents_def by (induction evs arbitrary: s) (simp_all add: applyEvent_empty)

text \<open>Every event keeps the queue and the set of loading URLs free of duplicates.\<close>

lemma processQueue_ok: "pending_ok s \<longrightarrow> pending_ok (processQueue s)"
  by (induction s rule: processQueue_rule) (auto simp: pending_ok_def)

lemma preload_push_ok:
  "pending_ok s \<Longrightarrow> pending_ok (foldl (\<lambda>t item.
                 if url item \<in> fst ` set (textureCache t) \<or> url item \<in> set (loadingUrls t)
                    \<or> url item \<in> set (loadQueue t)
                 then t else t\<lparr>loadQueue := loadQueue t @ [url item]\<rparr>) s items)"
  by (induction items arbitrary: s) (auto simp: pending_ok_def)

lemma applyEvent_ok:
  assumes "pending_ok s"
  shows "pending_ok (applyEvent s e)"
proof (cases e)
  case (Request item onLoad now)
  have p: "pending_ok t \<Longrightarrow> url item \<notin> set (loadingUrls t) \<Longrightarrow> url item \<notin> set (loadQueue t)
      \<Longrightarrow> pending_ok (processQueue (t\<lparr>loadQueue := loadQueue t @ [url item]\<rparr>))" for t
    by (rule processQueue_ok [rule_format]) (auto simp: pending_ok_def)
  have c: "pending_ok t \<Longrightarrow> loadQueue t' = loadQueue t \<Longrightarrow> loadingUrls t' = loadingUrls t
      \<Longrightarrow> inFlight t' = inFlight t \<Longrightarrow> pending_ok t'" for t t'
    by (simp add: pending_ok_def)
  let ?s1 = "s\<lparr>textureLastUsed := AList.update (url item) now (textureLastUsed s)\<rparr>"
  have s1: "pending_ok ?s1" using assms by (rule c) simp_all
  show ?thesis
  proof (cases "map_of (textureCache s) (url item)")
    case (Some existing)
    then show ?thesis
      using Request s1 by (cases onLoad) (auto simp: getTexture_def Let_def intro: c [OF s1])
  next
    case None
    let ?s2 = "case onLoad of None \<Rightarrow> ?s1 | Some cb \<Rightarrow> addCallback (url item) cb ?s1"
    have s2: "pending_ok ?s2" by (cases onLoad) (auto intro: c [OF s1] simp: s1)
    have g: "getTexture item onLoad now s
        = (if url item \<in> set (loadingUrls ?s2) \<or> url item \<in> set (loadQueue ?s2) then ?s2
           else processQueue (?s2\<lparr>loadQueue := loadQueue ?s2 @ [url item]\<rparr>))"
      using None by (simp add: getTexture_def Let_def)
    show ?thesis unfolding Request applyEvent.simps g using s2 p [OF s2] by simp
  qed
next
  case (Preload items)
  from processQueue_ok [rule_format, OF preload_push_ok [OF assms]] Preload
  show ?thesis by (simp add: preloadTextures_def)
next
  case (Finished u success now)
  let ?s1 = "if success
             then evictOldTextures (fireCallbacks u (texturesCreated s)
                    (s\<lparr>texturesCreated := Suc (texturesCreated s),
                       textureCache := AList.update u (texturesCreated s) (textureCache s),
                       textureLastUsed := AList.update u now (textureLastUsed s)\<rparr>))
             else s\<lparr>loadErrors := loadErrors s @ [u]\<rparr>"
  let ?s3 = "?s1\<lparr>activeLoads := activeLoads ?s1 - 1, loadingUrls := removeAll u (loadingUrls ?s1),
                 inFlight := remove1 u (inFlight ?s1)\<rparr>"
  have l: "loadFinished u success now s = processQueue ?s3"
    by (simp add: loadFinished_def Let_def)
  have "pending_ok ?s3"
  proof -
    have "x \<in> set (remove1 u (inFlight s))" if "x \<in> set (loadingUrls s)" "x \<noteq> u" for x
      using that assms by (auto simp: pending_ok_def)
    then show ?thesis using assms by (auto simp: pending_ok_def distinct_removeAll)
  qed
  from processQueue_ok [rule_format, OF this] show ?thesis using assms Finished by (simp add: l)
next
  case Timer
  have "pending_ok (s\<lparr>timers := timers s - 1\<rparr>)" using assms by (simp add: pending_ok_def)
  from processQueue_ok [rule_format, OF this] show ?thesis
    using assms Timer by (simp add: timerFired_def)
next
  case Clear
  then show ?thesis by (simp add: clearTextureCache_def pending_ok_def)
qed

lemma runEvents_ok: "pending_ok s \<Longrightarrow> pending_ok (runEvents evs s)"
  unfolding runEvents_def by (induction evs arbitrary: s) (simp_all add: applyEvent_ok)

lemma reachable_ok: "pending_ok (runEvents evs textureInitial)"
  by (rule runEvents_ok) (simp add: pending_ok_def textureInitial_def)

lemma distinct_count_one: "distinct xs \<Longrightarrow> x \<in> set xs \<Longrightarrow> count_list xs x = 1"
  by (induction xs) (auto simp: count_list_0_iff)

text \<open>
  Claim C1 at a failing input. A manifest of two items is preloaded on the idle module;
  the load of \<open>a.jpg\<close> fails and the load of \<open>b.jpg\<close> succeeds. Then every item has
  reached the cache or failed, nothing is queued or loading and no timer is pending;
  but the failed item has contributed no progress increment: one increment was reported,
  the last progress is \<open>1/2\<close>, and \<^verbatim>\<open>resolve\<close> has not been called. The closure of the
  failed item is still registered for its URL.
\<close>

theorem preload_all_stalls_on_failed_load:
  "pl_progress (loadFinished ''b.jpg'' True 30 (loadFinished ''a.jpg'' False 20
      (preloadAllTextures [mediaAt ''a.jpg'', mediaAt ''b.jpg''] (\<lambda>i. 10) textureInitial)))
     = [1 / 2]
   \<and> \<not> pl_resolved (loadFinished ''b.jpg'' True 30 (loadFinished ''a.jpg'' False 20
      (preloadAllTextures [mediaAt ''a.jpg'', mediaAt ''b.jpg''] (\<lambda>i. 10) textureInitial)))
   \<and> textureCache (loadFinished ''b.jpg'' True 30 (loadFinished ''a.jpg'' False 20
      (preloadAllTextures [mediaAt ''a.jpg'', mediaAt ''b.jpg''] (\<lambda>i. 10) textureInitial)))
     = [(''b.jpg'', 0)]
   \<and> loadErrors (loadFinished ''b.jpg'' True 30 (loadFinished ''a.jpg'' False 20
      (preloadAllTextures [mediaAt ''a.jpg'', mediaAt ''b.jpg''] (\<lambda>i. 10) textureInitial)))
     = [''a.jpg'']
   \<and> loadQueue (loadFinished ''b.jpg'' True 30 (loadFinished ''a.jpg'' False 20
      (preloadAllTextures [mediaAt ''a.jpg'', mediaAt ''b.jpg''] (\<lambda>i. 10) textureInitial)))
     = []
   \<and> loadingUrls (loadFinished ''b.jpg'' True 30 (loadFinished ''a.jpg'' False 20
      (preloadAllTextures [mediaAt ''a.jpg'', mediaAt ''b.jpg''] (\<lambda>i. 10) textureInitial)))
     = []
   \<and> timers (loadFinished ''b.jpg'' True 30 (loadFinished ''a.jpg'' False 20
      (preloadAllTextures [mediaAt ''a.jpg'', mediaAt ''b.jpg''] (\<lambda>i. 10) textureInitial)))
     = 0
   \<and> loadCallbacks (loadFinished ''b.jpg'' True 30 (loadFinished ''a.jpg'' False 20
      (preloadAllTextures [mediaAt ''a.jpg'', mediaAt ''b.jpg''] (\<lambda>i. 10) textureInitial)))
     = [(''a.jpg'', [ReportProgress 0])]"
  by code_simp

text \<open>When both loads succeed the same preload reports \<open>1/2\<close>, then \<open>1\<close>, and resolves.\<close>

lemma preload_all_resolves_when_loads_succeed:
  "pl_progress (loadFinished ''b.jpg'' True 30 (loadFinished ''a.jpg'' True 20
      (preloadAllTextures [mediaAt ''a.jpg'', mediaAt ''b.jpg''] (\<lambda>i. 10) textureInitial)))
     = [1 / 2, 1]
   \<and> pl_resolved (loadFinished ''b.jpg'' True 30 (loadFinished ''a.jpg'' True 20
      (preloadAllTextures [mediaAt ''a.jpg'', mediaAt ''b.jpg''] (\<lambda>i. 10) textureInitial)))"
  by code_simp

text \<open>
  Claim C2, as amended. In any state the module reaches, for every non-empty URL with
  no texture cached, already pending or not, and two distinct callbacks not yet
  registered for it: after the two requests the URL is pending exactly once. The second
  request queues and starts nothing; neither does the first if the URL was pending
  already, and if it was not, its fetch is started at once when a slot is free and the
  queue empty. Whatever happens next short of a load of the URL settling or the cache
  being cleared (other requests, preloads, other loads settling, the timer), the URL
  stays pending exactly once, and the fetches started for it since before the two
  requests number one if it is loading now and was not then, none otherwise. When its
  load then succeeds no further fetch is started, and the callbacks registered for the
  URL run in registration order with one and the same new texture, the two of the
  requests among them in their order. Under every sequence of events, clearing
  included, from any state, no fetch is ever started for the empty URL.
\<close>

theorem texture_request_dedup:
  assumes reach: "s = runEvents pre textureInitial"
      and u: "url item = u" "u \<noteq> []"
      and uncached: "map_of (textureCache s) u = None"
      and old: "old = (case map_of (loadCallbacks s) u of None \<Rightarrow> [] | Some cs \<Rightarrow> cs)"
      and cbs: "cb1 \<noteq> cb2" "cb1 \<notin> set old" "cb2 \<notin> set old"
      and quiet: "list_all (\<lambda>e. \<not> settles u e \<and> \<not> clears e) evs"
      and s1: "s1 = getTexture item (Some cb1) t1 s"
      and s2: "s2 = getTexture item (Some cb2) t2 s1"
      and s3: "s3 = runEvents evs s2"
      and s4: "s4 = applyEvent s3 (Finished u True t3)"
  shows "count_list (loadQueue s2 @ loadingUrls s2) u = 1
       \<and> loadQueue s2 = loadQueue s1 \<and> loadingUrls s2 = loadingUrls s1
       \<and> fetchStarted s2 = fetchStarted s1
       \<and> (u \<in> set (loadQueue s) \<or> u \<in> set (loadingUrls s) \<longrightarrow>
            loadQueue s1 = loadQueue s \<and> loadingUrls s1 = loadingUrls s
            \<and> fetchStarted s1 = fetchStarted s)
       \<and> (u \<notin> set (loadingUrls s) \<and> activeLoads s < MAX_CONCURRENT_LOADS \<and> loadQueue s = [] \<longrightarrow>
            fetchStarted s2 = fetchStarted s @ [u])
       \<and> count_list (loadQueue s3 @ loadingUrls s3) u = 1
       \<and> (u \<in> set (loadingUrls s) \<longrightarrow> u \<in> set (loadingUrls s3))
       \<and> count_list (fetchStarted s3) u
           = count_list (fetchStarted s) u
             + (if u \<in> set (loadingUrls s3) \<and> u \<notin> set (loadingUrls s) then 1 else 0)
       \<and> (u \<in> set (loadingUrls s3) \<longrightarrow>
            count_list (fetchStarted s4) u = count_list (fetchStarted s3) u
            \<and> (\<exists>more rest. invoked s4
                  = invoked s3 @ map (\<lambda>cb. (cb, texturesCreated s3)) (old @ [cb1, cb2] @ more)
                    @ rest))
       \<and> count_list (fetchStarted (runEvents evs' s')) [] = count_list (fetchStarted s') []"
proof -
  have ok: "pending_ok s" unfolding reach by (rule reachable_ok)
  have ok1: "pending_ok s1"
    using applyEvent_ok [OF ok, of "Request item (Some cb1) t1"] by (simp add: s1)
  have ok2: "pending_ok s2"
    using applyEvent_ok [OF ok1, of "Request item (Some cb2) t2"] by (simp add: s2)
  have ok3: "pending_ok s3" unfolding s3 by (rule runEvents_ok [OF ok2])
  let ?base = "count_list (fetchStarted s) u"
  let ?was = "u \<in> set (loadingUrls s)"
  have first: "map_of (textureCache s1) u = None
      \<and> map_of (loadCallbacks s1) u = Some (old @ [cb1])
      \<and> count_list (loadQueue s1 @ loadingUrls s1) u = 1
      \<and> (?was \<longrightarrow> u \<in> set (loadingUrls s1))
      \<and> count_list (fetchStarted s1) u
           = ?base + (if u \<in> set (loadingUrls s1) \<and> \<not> ?was then 1 else 0)
      \<and> (u \<in> set (loadQueue s) \<or> ?was \<longrightarrow>
            loadQueue s1 = loadQueue s \<and> loadingUrls s1 = loadingUrls s
            \<and> fetchStarted s1 = fetchStarted s)
      \<and> (\<not> ?was \<and> activeLoads s < MAX_CONCURRENT_LOADS \<and> loadQueue s = [] \<longrightarrow>
            fetchStarted s1 = fetchStarted s @ [u])"
  proof (cases "u \<in> set (loadingUrls s) \<or> u \<in> set (loadQueue s)")
    case False
    then have fresh: "u \<notin> set (loadQueue s)" "u \<notin> set (loadingUrls s)" by simp_all
    note f = getTexture_fresh [OF u uncached fresh old cbs(2) s1]
    from f(1,2,3,4) f(5) fresh show ?thesis by auto
  next
    case True
    note g = getTexture_pending [OF u(1) uncached True s1]
    have cb: "map_of (loadCallbacks s1) u = Some (old @ [cb1])"
      using g(8) cbs(2) old by (simp add: Let_def)
    from ok have "distinct (loadQueue s @ loadingUrls s)" by (simp add: pending_ok_def)
    moreover from True have "u \<in> set (loadQueue s @ loadingUrls s)" by auto
    ultimately have one: "count_list (loadQueue s @ loadingUrls s) u = 1"
      by (rule distinct_count_one)
    from True have q: "\<not> ?was \<longrightarrow> loadQueue s \<noteq> []" by auto
    show ?thesis
      using uncached cb one q by (auto simp: g(1,2,3,5))
  qed
  then have c1: "map_of (textureCache s1) u = None"
    and cb1: "map_of (loadCallbacks s1) u = Some (old @ [cb1])"
    and n1: "count_list (loadQueue s1 @ loadingUrls s1) u = 1"
    and w1: "?was \<longrightarrow> u \<in> set (loadingUrls s1)"
    and f1: "count_list (fetchStarted s1) u
           = ?base + (if u \<in> set (loadingUrls s1) \<and> \<not> ?was then 1 else 0)"
    and same1: "u \<in> set (loadQueue s) \<or> ?was \<longrightarrow>
            loadQueue s1 = loadQueue s \<and> loadingUrls s1 = loadingUrls s
            \<and> fetchStarted s1 = fetchStarted s"
    and now1: "\<not> ?was \<and> activeLoads s < MAX_CONCURRENT_LOADS \<and> loadQueue s = [] \<longrightarrow>
            fetchStarted s1 = fetchStarted s @ [u]"
    by simp_all
  have p1: "u \<in> set (loadingUrls s1) \<or> u \<in> set (loadQueue s1)"
  proof -
    from n1 have "count_list (loadQueue s1) u + count_list (loadingUrls s1) u = 1" by simp
    then have "count_list (loadQueue s1) u \<noteq> 0 \<or> count_list (loadingUrls s1) u \<noteq> 0" by arith
    then show ?thesis by (auto simp: count_list_0_iff)
  qed
  note g = getTexture_pending [OF u(1) c1 p1 s2]
  have cb: "map_of (loadCallbacks s2) u = Some (old @ [cb1, cb2])"
    using g(8) cb1 cbs by (simp add: Let_def)
  have a2: "awaited u ?base ?was (old @ [cb1, cb2]) s2"
    unfolding awaited_def using u(2) c1 n1 w1 f1 cb by (simp add: g(1,2,3,5))
  have a3: "awaited u ?base ?was (old @ [cb1, cb2]) s3"
    unfolding s3 by (rule runEvents_awaited [OF a2 quiet])
  have c2: "count_list (loadQueue s2 @ loadingUrls s2) u = 1"
    using a2 by (simp add: awaited_def)
  have second: "loadQueue s2 = loadQueue s1 \<and> loadingUrls s2 = loadingUrls s1
       \<and> fetchStarted s2 = fetchStarted s1"
    by (simp add: g(1,2,3))
  have now: "u \<notin> set (loadingUrls s) \<and> activeLoads s < MAX_CONCURRENT_LOADS \<and> loadQueue s = [] \<longrightarrow>
            fetchStarted s2 = fetchStarted s @ [u]"
    using now1 by (simp add: g(3))
  have c3: "count_list (loadQueue s3 @ loadingUrls s3) u = 1"
    and w3: "u \<in> set (loadingUrls s) \<longrightarrow> u \<in> set (loadingUrls s3)"
    and n3: "count_list (fetchStarted s3) u
           = count_list (fetchStarted s) u
             + (if u \<in> set (loadingUrls s3) \<and> u \<notin> set (loadingUrls s) then 1 else 0)"
    using a3 by (simp_all add: awaited_def)
  have fin: "count_list (fetchStarted s4) u = count_list (fetchStarted s3) u
            \<and> (\<exists>more rest. invoked s4
                  = invoked s3 @ map (\<lambda>cb. (cb, texturesCreated s3)) (old @ [cb1, cb2] @ more)
                    @ rest)"
    if l: "u \<in> set (loadingUrls s3)"
  proof -
    from l have "count_list (loadingUrls s3) u \<noteq> 0" by (simp add: count_list_0_iff)
    with c3 have "count_list (loadQueue s3) u = 0" by simp
    then have q: "u \<notin> set (loadQueue s3)" by (simp add: count_list_0_iff)
    from a3 obtain more where m: "map_of (loadCallbacks s3) u = Some ((old @ [cb1, cb2]) @ more)"
      by (auto simp: awaited_def)
    from ok3 l have "u \<in> set (inFlight s3)" by (auto simp: pending_ok_def)
    then have s4': "s4 = loadFinished u True t3 s3" by (simp add: s4)
    from loadFinished_success [OF q m s4']
    show ?thesis by auto
  qed
  have e: "count_list (fetchStarted (runEvents evs' s')) [] = count_list (fetchStarted s') []"
    by (rule runEvents_empty)
  from c2 second same1 now c3 w3 n3 fin e show ?thesis by blast
qed

text \<open>
  Witness: \<open>z.jpg\<close> is requested, the cache is cleared while its load is in flight, and
  \<open>a.jpg\<close> is requested with a first callback, so that it is loading already. Then come
  the two requests for \<open>a.jpg\<close>; in between and after, \<open>b.jpg\<close> is requested, the stale
  load of \<open>z.jpg\<close> succeeds and the timer fires; then the load of \<open>a.jpg\<close> succeeds. One
  fetch has been started for \<open>a.jpg\<close>, and its three callbacks have run in order with
  the one texture.
\<close>

theorem texture_request_dedup_witness:
  "count_list (fetchStarted (applyEvent (runEvents
       [Request (mediaAt ''b.jpg'') None 3, Finished ''z.jpg'' True 4, Timer]
       (getTexture (mediaAt ''a.jpg'') (Some (OnLoad 2)) 2
         (getTexture (mediaAt ''a.jpg'') (Some (OnLoad 1)) 1
           (runEvents [Request (mediaAt ''z.jpg'') None 0, Clear,
                       Request (mediaAt ''a.jpg'') (Some (OnLoad 0)) 0] textureInitial))))
       (Finished ''a.jpg'' True 5))) ''a.jpg'' = 1
   \<and> invoked (applyEvent (runEvents
       [Request (mediaAt ''b.jpg'') None 3, Finished ''z.jpg'' True 4, Timer]
       (getTexture (mediaAt ''a.jpg'') (Some (OnLoad 2)) 2
         (getTexture (mediaAt ''a.jpg'') (Some (OnLoad 1)) 1
           (runEvents [Request (mediaAt ''z.jpg'') None 0, Clear,
                       Request (mediaAt ''a.jpg'') (Some (OnLoad 0)) 0] textureInitial))))
       (Finished ''a.jpg'' True 5)) = [(OnLoad 0, 1), (OnLoad 1, 1), (OnLoad 2, 1)]"
proof -
  let ?item = "mediaAt ''a.jpg''"
  let ?pre = "[Request (mediaAt ''z.jpg'') None 0, Clear, Request ?item (Some (OnLoad 0)) 0]"
  let ?st = "runEvents ?pre textureInitial"
  let ?s2 = "getTexture ?item (Some (OnLoad 2)) 2 (getTexture ?item (Some (OnLoad 1)) 1 ?st)"
  let ?evs = "[Request (mediaAt ''b.jpg'') None 3, Finished ''z.jpg'' True 4, Timer]"
  let ?s3 = "runEvents ?evs ?s2"
  let ?s4 = "applyEvent ?s3 (Finished ''a.jpg'' True 5)"
  have u: "url ?item = ''a.jpg''" "''a.jpg'' \<noteq> []" by (simp_all add: mediaAt_def)
  have uncached: "map_of (textureCache ?st) ''a.jpg'' = None" by code_simp
  have old: "[OnLoad 0] = (case map_of (loadCallbacks ?st) ''a.jpg'' of None \<Rightarrow> [] | Some cs \<Rightarrow> cs)"
    by code_simp
  have cbs: "OnLoad 1 \<noteq> OnLoad 2" "OnLoad 1 \<notin> set [OnLoad 0]" "OnLoad 2 \<notin> set [OnLoad 0]"
    by simp_all
  have quiet: "list_all (\<lambda>e. \<not> settles ''a.jpg'' e \<and> \<not> clears e) ?evs" by simp
  have l: "''a.jpg'' \<in> set (loadingUrls ?s3)" by code_simp
  have l0: "''a.jpg'' \<in> set (loadingUrls ?st)" by code_simp
  have f0: "count_list (fetchStarted ?st) ''a.jpg'' = 1" by code_simp
  from texture_request_dedup [where ?t1.0 = 1 and ?t2.0 = 2 and ?t3.0 = 5,
      OF refl u uncached old cbs quiet refl refl refl refl] l l0 f0
  have "count_list (fetchStarted ?s4) ''a.jpg'' = 1" by simp
  moreover have "invoked ?s4 = [(OnLoad 0, 1), (OnLoad 1, 1), (OnLoad 2, 1)]" by code_simp
  ultimately show ?thesis by simp
qed

text \<open>
  Why the clearing is set apart: it empties the set of loading URLs and cancels
  nothing, so a request that follows it starts a second fetch for a URL whose first
  load is still in flight.
\<close>

lemma clear_forgets_load_in_flight:
  "fetchStarted (runEvents [Request (mediaAt ''a.jpg'') (Some (OnLoad 1)) 1, Clear,
       Request (mediaAt ''a.jpg'') (Some (OnLoad 2)) 2] textureInitial) = [''a.jpg'', ''a.jpg'']
   \<and> inFlight (runEvents [Request (mediaAt ''a.jpg'') (Some (OnLoad 1)) 1, Clear,
       Request (mediaAt ''a.jpg'') (Some (OnLoad 2)) 2] textureInitial) = [''a.jpg'', ''a.jpg'']
   \<and> invoked (runEvents [Request (mediaAt ''a.jpg'') (Some (OnLoad 1)) 1, Clear,
       Request (mediaAt ''a.jpg'') (Some (OnLoad 2)) 2, Finished ''a.jpg'' True 3,
       Finished ''a.jpg'' True 4] textureInitial) = [(OnLoad 2, 0)]"
  by code_simp

text \<open>
  The claim as stated fails for the empty URL, which the queue skips as falsy: after
  two requests no fetch has been started, nothing is queued or loading, and the two
  callbacks wait for a load that will not happen.
\<close>

theorem empty_url_requests_start_nothing:
  "fetchStarted (getTexture (mediaAt []) (Some (OnLoad 2)) 2
      (getTexture (mediaAt []) (Some (OnLoad 1)) 1 textureInitial)) = []
   \<and> loadQueue (getTexture (mediaAt []) (Some (OnLoad 2)) 2
      (getTexture (mediaAt []) (Some (OnLoad 1)) 1 textureInitial)) = []
   \<and> loadingUrls (getTexture (mediaAt []) (Some (OnLoad 2)) 2
      (getTexture (mediaAt []) (Some (OnLoad 1)) 1 textureInitial)) = []
   \<and> invoked (getTexture (mediaAt []) (Some (OnLoad 2)) 2
      (getTexture (mediaAt []) (Some (OnLoad 1)) 1 textureInitial)) = []
   \<and> loadCallbacks (getTexture (mediaAt []) (Some (OnLoad 2)) 2
      (getTexture (mediaAt []) (Some (OnLoad 1)) 1 textureInitial)) = [([], [OnLoad 1, OnLoad 2])]"
  by code_simp

section \<open>Eviction from the texture cache\<close>

text \<open>The index lists of the scenarios below stay folded.\<close>

declare upt_rec_numeral [simp del]

lemma evictOne_cache:
  "textureCache (evictOne s k) = AList.delete k (textureCache s)"
  "textureLastUsed (evictOne s k)
     = (if k \<in> fst ` set (textureCache s) then AList.delete k (textureLastUsed s)
        else textureLastUsed s)"
  "disposed (evictOne s k)
     = disposed s @ (case map_of (textureCache s) k of None \<Rightarrow> [] | Some tex \<Rightarrow> [tex])"
proof -
  show "textureCache (evictOne s k) = AList.delete k (textureCache s)"
  proof (cases "map_of (textureCache s) k")
    case None
    then have "k \<notin> fst ` set (textureCache s)" by (simp add: map_of_eq_None_iff)
    with None show ?thesis by (simp add: evictOne_def)
  next
    case (Some tex)
    then show ?thesis by (simp add: evictOne_def)
  qed
  show "textureLastUsed (evictOne s k)
     = (if k \<in> fst ` set (textureCache s) then AList.delete k (textureLastUsed s)
        else textureLastUsed s)"
  proof (cases "map_of (textureCache s) k")
    case None
    then have "k \<notin> fst ` set (textureCache s)" by (simp add: map_of_eq_None_iff)
    with None show ?thesis by (simp add: evictOne_def)
  next
    case (Some tex)
    then have "k \<in> fst ` set (textureCache s)" by (metis map_of_eq_None_iff option.distinct(1))
    with Some show ?thesis by (simp add: evictOne_def)
  qed
  show "disposed (evictOne s k)
     = disposed s @ (case map_of (textureCache s) k of None \<Rightarrow> [] | Some tex \<Rightarrow> [tex])"
    by (simp add: evictOne_def split: option.splits)
qed

lemma evictOldTextures_within:
  "length (textureCache s) \<le> MAX_CACHE_SIZE \<Longrightarrow> evictOldTextures s = s"
  by (simp add: evictOldTextures_def)

lemma evictOldTextures_one_over:
  assumes "length (textureCache s) = Suc MAX_CACHE_SIZE" "textureLastUsed s \<noteq> []"
  shows "evictOldTextures s = evictOne s (fst (hd (sort_key snd (textureLastUsed s))))"
proof -
  have "sort_key snd (textureLastUsed s) \<noteq> []"
    using assms(2) by (metis length_sort length_0_conv)
  then have "take 1 (sort_key snd (textureLastUsed s)) = [hd (sort_key snd (textureLastUsed s))]"
    by (cases "sort_key snd (textureLastUsed s)") simp_all
  then show ?thesis using assms(1) by (simp add: evictOldTextures_def Let_def)
qed

lemma update_absent_append: "k \<notin> fst ` set al \<Longrightarrow> AList.update k v al = al @ [(k, v)]"
  by (induction al) auto

lemma update_last_append: "k \<notin> fst ` set al \<Longrightarrow> AList.update k v (al @ [(k, w)]) = al @ [(k, v)]"
  by (induction al) auto

lemma load_round:
  assumes q: "loadQueue s = []" and a: "activeLoads s < MAX_CONCURRENT_LOADS"
      and n: "loadCallbacks s = []"
      and u: "u \<noteq> []" "u \<notin> set (loadingUrls s)" "u \<notin> fst ` set (textureCache s)"
             "u \<notin> fst ` set (textureLastUsed s)"
  shows "loadFinished u True t' (getTexture (mediaAt u) None t s)
       = (evictOldTextures (roundInserted u t' s))
           \<lparr>activeLoads := activeLoads s, loadingUrls := loadingUrls s,
             inFlight := remove1 u (inFlight s @ [u])\<rparr>"
proof -
  let ?s1 = "s\<lparr>textureLastUsed := AList.update u t (textureLastUsed s)\<rparr>"
  let ?p = "?s1\<lparr>loadQueue := loadQueue ?s1 @ [u]\<rparr>"
  have c: "map_of (textureCache s) u = None" using u(3) by (simp add: map_of_eq_None_iff)
  have g: "getTexture (mediaAt u) None t s = processQueue ?p"
    using c u(2) q by (simp add: getTexture_def Let_def mediaAt_def)
  have st: "processQueue ?p = ?p\<lparr>loadQueue := [], activeLoads := activeLoads ?p + 1,
             loadingUrls := loadingUrls ?p @ [u], fetchStarted := fetchStarted ?p @ [u],
             inFlight := inFlight ?p @ [u]\<rparr>"
    using a u c q by (intro processQueue_start) simp_all
  let ?g = "getTexture (mediaAt u) None t s"
  have gf: "?g = s\<lparr>textureLastUsed := textureLastUsed s @ [(u, t)], loadQueue := [],
                activeLoads := activeLoads s + 1, loadingUrls := loadingUrls s @ [u],
                fetchStarted := fetchStarted s @ [u], inFlight := inFlight s @ [u]\<rparr>"
    unfolding g st using q by (simp add: update_absent_append [OF u(4)])
  let ?ins = "fireCallbacks u (texturesCreated ?g)
       (?g\<lparr>texturesCreated := Suc (texturesCreated ?g),
           textureCache := AList.update u (texturesCreated ?g) (textureCache ?g),
           textureLastUsed := AList.update u t' (textureLastUsed ?g)\<rparr>)"
  have ins: "?ins = (roundInserted u t' s)\<lparr>loadQueue := []\<rparr>"
    unfolding gf
    by (simp add: fireCallbacks_def Let_def roundInserted_def update_absent_append [OF u(3)]
        update_last_append [OF u(4)] n)
  have ri: "(roundInserted u t' s)\<lparr>loadQueue := []\<rparr> = roundInserted u t' s"
    using q by (simp add: roundInserted_def)
  let ?e = "evictOldTextures (roundInserted u t' s)"
  let ?x = "?e\<lparr>activeLoads := activeLoads ?e - 1, loadingUrls := removeAll u (loadingUrls ?e),
               inFlight := remove1 u (inFlight ?e)\<rparr>"
  have lf: "loadFinished u True t' ?g = processQueue ?x"
    unfolding loadFinished_def Let_def if_True
    by (simp only: ins ri)
  have xq: "loadQueue ?x = []" using q by (simp add: roundInserted_def)
  have "processQueue ?x = ?x" using xq by (intro processQueue_stop) simp
  moreover have "?x = ?e\<lparr>activeLoads := activeLoads s, loadingUrls := loadingUrls s,
                       inFlight := remove1 u (inFlight s @ [u])\<rparr>"
    using u(2) by (simp add: roundInserted_def)
  ultimately show ?thesis unfolding lf by simp
qed

lemma roundInserted_fields [simp]:
  "textureCache (roundInserted u t' s) = textureCache s @ [(u, texturesCreated s)]"
  "textureLastUsed (roundInserted u t' s) = textureLastUsed s @ [(u, t')]"
  "texturesCreated (roundInserted u t' s) = Suc (texturesCreated s)"
  "disposed (roundInserted u t' s) = disposed s"
  "loadQueue (roundInserted u t' s) = loadQueue s"
  "loadCallbacks (roundInserted u t' s) = []"
  by (simp_all add: roundInserted_def)

lemma sequentialLoads_within:
  assumes "loadQueue s = []" "activeLoads s < MAX_CONCURRENT_LOADS" "loadCallbacks s = []"
      and "[] \<notin> set us" "distinct us" "set us \<inter> set (loadingUrls s) = {}"
      and "set us \<inter> fst ` set (textureCache s) = {}"
      and "set us \<inter> fst ` set (textureLastUsed s) = {}"
      and "length (textureCache s) + length us \<le> MAX_CACHE_SIZE"
  shows "textureCache (sequentialLoads t us s)
           = textureCache s @ zip us [texturesCreated s ..< texturesCreated s + length us]
       \<and> textureLastUsed (sequentialLoads t us s)
           = textureLastUsed s @ zip us (map (\<lambda>i. t + 2 * real i + 1) [0 ..< length us])
       \<and> disposed (sequentialLoads t us s) = disposed s
       \<and> loadQueue (sequentialLoads t us s) = []
       \<and> activeLoads (sequentialLoads t us s) = activeLoads s
       \<and> loadingUrls (sequentialLoads t us s) = loadingUrls s
       \<and> loadCallbacks (sequentialLoads t us s) = []
       \<and> texturesCreated (sequentialLoads t us s) = texturesCreated s + length us"
  using assms
proof (induction us arbitrary: s t)
  case Nil
  then show ?case by simp
next
  case (Cons u us)
  let ?s' = "loadFinished u True (t + 1) (getTexture (mediaAt u) None t s)"
  let ?r = "roundInserted u (t + 1) s"
  have u: "u \<noteq> []" "u \<notin> set (loadingUrls s)" "u \<notin> fst ` set (textureCache s)"
    "u \<notin> fst ` set (textureLastUsed s)" using Cons.prems by auto
  have "length (textureCache ?r) \<le> MAX_CACHE_SIZE" using Cons.prems(9) by simp
  then have ev: "evictOldTextures ?r = ?r" by (rule evictOldTextures_within)
  have s': "?s' = ?r\<lparr>activeLoads := activeLoads s, loadingUrls := loadingUrls s,
                      inFlight := remove1 u (inFlight s @ [u])\<rparr>"
    using load_round [OF Cons.prems(1,2,3) u, of "t + 1" t] by (simp only: ev)
  have f: "textureCache ?s' = textureCache s @ [(u, texturesCreated s)]"
    "textureLastUsed ?s' = textureLastUsed s @ [(u, t + 1)]"
    "disposed ?s' = disposed s" "loadQueue ?s' = []" "activeLoads ?s' = activeLoads s"
    "loadingUrls ?s' = loadingUrls s" "loadCallbacks ?s' = []"
    "texturesCreated ?s' = Suc (texturesCreated s)"
    unfolding s' using Cons.prems(1) by simp_all
  have ih: "textureCache (sequentialLoads (t + 2) us ?s')
           = textureCache ?s' @ zip us [texturesCreated ?s' ..< texturesCreated ?s' + length us]
       \<and> textureLastUsed (sequentialLoads (t + 2) us ?s')
           = textureLastUsed ?s' @ zip us (map (\<lambda>i. (t + 2) + 2 * real i + 1) [0 ..< length us])
       \<and> disposed (sequentialLoads (t + 2) us ?s') = disposed ?s'
       \<and> loadQueue (sequentialLoads (t + 2) us ?s') = []
       \<and> activeLoads (sequentialLoads (t + 2) us ?s') = activeLoads ?s'
       \<and> loadingUrls (sequentialLoads (t + 2) us ?s') = loadingUrls ?s'
       \<and> loadCallbacks (sequentialLoads (t + 2) us ?s') = []
       \<and> texturesCreated (sequentialLoads (t + 2) us ?s') = texturesCreated ?s' + length us"
    using Cons.prems by (intro Cons.IH) (auto simp: f)
  have z1: "zip (u # us) [texturesCreated s ..< texturesCreated s + length (u # us)]
      = (u, texturesCreated s) # zip us [Suc (texturesCreated s) ..< Suc (texturesCreated s) + length us]"
  proof -
    have "[texturesCreated s ..< texturesCreated s + length (u # us)]
        = texturesCreated s # [Suc (texturesCreated s) ..< Suc (texturesCreated s) + length us]"
      by (subst upt_conv_Cons) simp_all
    then show ?thesis by (simp only: zip_Cons_Cons)
  qed
  have z2: "zip (u # us) (map (\<lambda>i. t + 2 * real i + 1) [0 ..< length (u # us)])
      = (u, t + 1) # zip us (map (\<lambda>i. (t + 2) + 2 * real i + 1) [0 ..< length us])"
    by (simp add: map_upt_Suc algebra_simps del: upt_Suc)
  have sq: "sequentialLoads t (u # us) s = sequentialLoads (t + 2) us ?s'" by simp
  show ?case
    unfolding sq z1 z2 using ih by (simp add: f)
qed

lemma urlNo_inj: "urlNo i = urlNo j \<longleftrightarrow> i = j"
  by (auto simp: urlNo_def dest: string_of_nat_inj)

lemma urlNo_facts: "urlNo i \<noteq> []" "urlNo i \<noteq> ''slow.jpg''" "''slow.jpg'' \<noteq> urlNo i"
  by (simp_all add: urlNo_def)

lemma distinct_urlNo: "distinct (map urlNo [a ..< b])"
  by (simp add: distinct_map inj_on_def urlNo_inj)

lemma sort_key_least_first:
  assumes "\<forall>y \<in> set ys. f x \<le> f y"
  shows "sort_key f (x # ys) = x # sort_key f ys"
proof -
  have "\<forall>y \<in> set (sort_key f ys). f x \<le> f y" using assms by simp
  then show ?thesis by (simp add: insort_is_Cons)
qed

lemma sort_key_second_least_first:
  assumes "\<forall>z \<in> set zs. f y \<le> f z" "f y < f x"
  shows "hd (sort_key f (x # y # zs)) = y"
proof -
  have "sort_key f (y # zs) = y # sort_key f zs" by (rule sort_key_least_first [OF assms(1)])
  then have "sort_key f (x # y # zs) = insort_key f x (y # sort_key f zs)" by simp
  also have "\<dots> = y # insort_key f x (sort_key f zs)"
  proof -
    have "\<not> f x \<le> f y" using assms(2) by (simp add: not_le)
    then show ?thesis by simp
  qed
  finally show ?thesis by simp
qed

lemma stamps_lower:
  assumes "(k, ts) \<in> set (zip us (map (\<lambda>i. t + 2 * real i + 1) [a ..< b]))"
  shows "t + 2 * real a + 1 \<le> ts"
proof -
  from assms have "ts \<in> set (map (\<lambda>i. t + 2 * real i + 1) [a ..< b])" by (rule set_zip_rightD)
  then obtain i where "a \<le> i" "ts = t + 2 * real i + 1" by auto
  then show ?thesis by simp
qed

text \<open>The state after the first \<open>n\<close> sequential loads of \<open>u0, u1, \<dots>\<close>, from a given state.\<close>

lemma sequential_urls:
  assumes "loadQueue s = []" "activeLoads s < MAX_CONCURRENT_LOADS" "loadCallbacks s = []"
      and "textureCache s = []" "set (loadingUrls s) \<subseteq> {''slow.jpg''}"
      and "fst ` set (textureLastUsed s) \<subseteq> {''slow.jpg''}" "n \<le> MAX_CACHE_SIZE"
  shows "textureCache (sequentialLoads t (map urlNo [0 ..< n]) s)
           = zip (map urlNo [0 ..< n]) [texturesCreated s ..< texturesCreated s + n]
       \<and> textureLastUsed (sequentialLoads t (map urlNo [0 ..< n]) s)
           = textureLastUsed s @ zip (map urlNo [0 ..< n]) (map (\<lambda>i. t + 2 * real i + 1) [0 ..< n])
       \<and> disposed (sequentialLoads t (map urlNo [0 ..< n]) s) = disposed s
       \<and> loadQueue (sequentialLoads t (map urlNo [0 ..< n]) s) = []
       \<and> activeLoads (sequentialLoads t (map urlNo [0 ..< n]) s) = activeLoads s
       \<and> loadingUrls (sequentialLoads t (map urlNo [0 ..< n]) s) = loadingUrls s
       \<and> loadCallbacks (sequentialLoads t (map urlNo [0 ..< n]) s) = []
       \<and> texturesCreated (sequentialLoads t (map urlNo [0 ..< n]) s) = texturesCreated s + n"
proof -
  let ?us = "map urlNo [0 ..< n]"
  have 1: "[] \<notin> set ?us" by (auto simp: urlNo_def)
  have 2: "distinct ?us" by (rule distinct_urlNo)
  have 3: "set ?us \<inter> set (loadingUrls s) = {}" using assms(5) urlNo_facts(2) by auto
  have 4: "set ?us \<inter> fst ` set (textureCache s) = {}" using assms(4) by simp
  have 5: "set ?us \<inter> fst ` set (textureLastUsed s) = {}" using assms(6) urlNo_facts(2) by auto
  have 6: "length (textureCache s) + length ?us \<le> MAX_CACHE_SIZE" using assms(4,7) by simp
  from sequentialLoads_within [OF assms(1,2,3) 1 2 3 4 5 6, of t] assms(4)
  show ?thesis by simp
qed

lemma zip_keys: "fst ` set (zip us ns) \<subseteq> set us"
  by (auto dest: set_zip_leftD)

lemma urlNo_new: "urlNo n \<notin> set (map urlNo [0 ..< n])"
  by (auto simp: urlNo_inj)

text \<open>
  Claim C3 at a failing input. \<open>slow.jpg\<close> is requested at time 0 and its load is still
  running (or: has failed); then \<open>u0, \<dots>, u750\<close> are requested and loaded one after the
  other. The 751st insert makes the cache exceed its capacity of 750, and eviction
  visits the one oldest timestamp, that of \<open>slow.jpg\<close>, which has no texture: nothing is
  disposed of and the cache keeps 751 entries.
\<close>

theorem eviction_blocked_by_stale_timestamp:
  "length (textureCache
     (loadFinished (urlNo 750) True 1502 (getTexture (mediaAt (urlNo 750)) None 1501
        (sequentialLoads 1 (map urlNo [0 ..< 750])
           (getTexture (mediaAt ''slow.jpg'') None 0 textureInitial))))) = 751
   \<and> disposed
     (loadFinished (urlNo 750) True 1502 (getTexture (mediaAt (urlNo 750)) None 1501
        (sequentialLoads 1 (map urlNo [0 ..< 750])
           (getTexture (mediaAt ''slow.jpg'') None 0 textureInitial)))) = []
   \<and> MAX_CACHE_SIZE = 750"
proof -
  let ?s0 = "getTexture (mediaAt ''slow.jpg'') None 0 textureInitial"
  let ?us = "map urlNo [0 ..< 750]"
  let ?S = "sequentialLoads 1 ?us ?s0"
  let ?u = "urlNo 750"
  have s0: "loadQueue ?s0 = []" "activeLoads ?s0 = 1" "loadCallbacks ?s0 = []"
    "textureCache ?s0 = []" "loadingUrls ?s0 = [''slow.jpg'']"
    "textureLastUsed ?s0 = [(''slow.jpg'', 0)]" "texturesCreated ?s0 = 0" "disposed ?s0 = []"
    by code_simp+
  have S: "textureCache ?S = zip ?us [0 ..< 750]"
    "textureLastUsed ?S = (''slow.jpg'', 0) # zip ?us (map (\<lambda>i. 1 + 2 * real i + 1) [0 ..< 750])"
    "disposed ?S = []" "loadQueue ?S = []" "activeLoads ?S = 1"
    "loadingUrls ?S = [''slow.jpg'']" "loadCallbacks ?S = []"
    using sequential_urls [of ?s0 750 1] by (simp_all add: s0 MAX_CONCURRENT_LOADS_def MAX_CACHE_SIZE_def)
  let ?R = "roundInserted ?u 1502 ?S"
  have new: "?u \<notin> set ?us" by (rule urlNo_new)
  have u: "?u \<noteq> []" "?u \<notin> set (loadingUrls ?S)" "?u \<notin> fst ` set (textureCache ?S)"
    "?u \<notin> fst ` set (textureLastUsed ?S)"
    using new zip_keys [of ?us] urlNo_facts [of 750] unfolding S by auto
  have F: "loadFinished ?u True 1502 (getTexture (mediaAt ?u) None 1501 ?S)
      = (evictOldTextures ?R)\<lparr>activeLoads := activeLoads ?S, loadingUrls := loadingUrls ?S,
           inFlight := remove1 ?u (inFlight ?S @ [?u])\<rparr>"
    by (rule load_round [OF S(4) _ S(7) u]) (simp add: S MAX_CONCURRENT_LOADS_def)
  have len: "length (textureCache ?R) = Suc MAX_CACHE_SIZE"
    by (simp add: S MAX_CACHE_SIZE_def)
  let ?rest = "zip ?us (map (\<lambda>i. 1 + 2 * real i + 1) [0 ..< 750]) @ [(?u, 1502)]"
  have L: "textureLastUsed ?R = (''slow.jpg'', 0) # ?rest" by (simp add: S)
  have low: "\<forall>y \<in> set ?rest. snd (''slow.jpg'', 0 :: real) \<le> snd y"
  proof
    fix y assume "y \<in> set ?rest"
    then consider "y \<in> set (zip ?us (map (\<lambda>i. 1 + 2 * real i + 1) [0 ..< 750]))" | "y = (?u, 1502)"
      by auto
    then show "snd (''slow.jpg'', 0 :: real) \<le> snd y"
    proof cases
      case 1
      then have "(fst y, snd y) \<in> set (zip ?us (map (\<lambda>i. 1 + 2 * real i + 1) [0 ..< 750]))" by simp
      from stamps_lower [OF this] show ?thesis by simp
    next
      case 2
      then show ?thesis by simp
    qed
  qed
  have hd: "fst (hd (sort_key snd (textureLastUsed ?R))) = ''slow.jpg''"
    unfolding L by (simp only: sort_key_least_first [OF low] list.sel fst_conv)
  have ev: "evictOldTextures ?R = evictOne ?R ''slow.jpg''"
    using evictOldTextures_one_over [OF len] L hd by simp
  have nk: "''slow.jpg'' \<notin> fst ` set (textureCache ?R)"
    using zip_keys [of ?us "[0 ..< 750]"] urlNo_facts(3) by (auto simp: S)
  then have nm: "map_of (textureCache ?R) ''slow.jpg'' = None" by (simp add: map_of_eq_None_iff)
  have c: "textureCache (evictOldTextures ?R) = textureCache ?R"
    unfolding ev evictOne_cache(1) using nk by (rule delete_id)
  have d: "disposed (evictOldTextures ?R) = []"
    unfolding ev evictOne_cache(3) nm by (simp add: S)
  show ?thesis
    unfolding F using c d len by (simp add: MAX_CACHE_SIZE_def)
qed

lemma initial_fields:
  "loadQueue textureInitial = []" "activeLoads textureInitial = 0"
  "loadCallbacks textureInitial = []" "textureCache textureInitial = []"
  "loadingUrls textureInitial = []" "textureLastUsed textureInitial = []"
  "texturesCreated textureInitial = 0" "disposed textureInitial = []"
  by (simp_all add: textureInitial_def)

lemma full_cache:
  "textureCache (sequentialLoads 1 (map urlNo [0 ..< 750]) textureInitial)
     = (urlNo 0, 0) # (urlNo 1, 1) # zip (map urlNo [2 ..< 750]) [2 ..< 750]"
  "textureLastUsed (sequentialLoads 1 (map urlNo [0 ..< 750]) textureInitial)
     = (urlNo 0, 2) # (urlNo 1, 4)
       # zip (map urlNo [2 ..< 750]) (map (\<lambda>i. 1 + 2 * real i + 1) [2 ..< 750])"
  "disposed (sequentialLoads 1 (map urlNo [0 ..< 750]) textureInitial) = []"
  "loadQueue (sequentialLoads 1 (map urlNo [0 ..< 750]) textureInitial) = []"
  "activeLoads (sequentialLoads 1 (map urlNo [0 ..< 750]) textureInitial) = 0"
  "loadingUrls (sequentialLoads 1 (map urlNo [0 ..< 750]) textureInitial) = []"
  "loadCallbacks (sequentialLoads 1 (map urlNo [0 ..< 750]) textureInitial) = []"
proof -
  have up: "[0 ..< 750] = 0 # 1 # [2 ..< 750]"
  proof -
    have "[0 ..< 750] = 0 # [Suc 0 ..< 750]" by (rule upt_conv_Cons) simp
    also have "[Suc 0 ..< 750] = Suc 0 # [Suc (Suc 0) ..< 750]" by (rule upt_conv_Cons) simp
    finally show ?thesis by (simp add: numeral_2_eq_2)
  qed
  note s = sequential_urls [of textureInitial 750 1]
  have pre: "loadQueue textureInitial = []" "activeLoads textureInitial < MAX_CONCURRENT_LOADS"
    "loadCallbacks textureInitial = []" "textureCache textureInitial = []"
    "set (loadingUrls textureInitial) \<subseteq> {''slow.jpg''}"
    "fst ` set (textureLastUsed textureInitial) \<subseteq> {''slow.jpg''}" "750 \<le> MAX_CACHE_SIZE"
    by (simp_all add: initial_fields MAX_CONCURRENT_LOADS_def MAX_CACHE_SIZE_def)
  note r = s [OF pre]
  from r have c: "textureCache (sequentialLoads 1 (map urlNo [0 ..< 750]) textureInitial)
      = zip (map urlNo [0 ..< 750]) [0 ..< 750]"
    and l: "textureLastUsed (sequentialLoads 1 (map urlNo [0 ..< 750]) textureInitial)
      = zip (map urlNo [0 ..< 750]) (map (\<lambda>i. 1 + 2 * real i + 1) [0 ..< 750])"
    by (simp_all add: initial_fields)
  show "textureCache (sequentialLoads 1 (map urlNo [0 ..< 750]) textureInitial)
     = (urlNo 0, 0) # (urlNo 1, 1) # zip (map urlNo [2 ..< 750]) [2 ..< 750]"
    unfolding c by (subst (1 2) up) (simp)
  show "textureLastUsed (sequentialLoads 1 (map urlNo [0 ..< 750]) textureInitial)
     = (urlNo 0, 2) # (urlNo 1, 4)
       # zip (map urlNo [2 ..< 750]) (map (\<lambda>i. 1 + 2 * real i + 1) [2 ..< 750])"
    unfolding l by (subst (1 2) up) (simp)
  from r show "disposed (sequentialLoads 1 (map urlNo [0 ..< 750]) textureInitial) = []"
    "loadQueue (sequentialLoads 1 (map urlNo [0 ..< 750]) textureInitial) = []"
    "activeLoads (sequentialLoads 1 (map urlNo [0 ..< 750]) textureInitial) = 0"
    "loadingUrls (sequentialLoads 1 (map urlNo [0 ..< 750]) textureInitial) = []"
    "loadCallbacks (sequentialLoads 1 (map urlNo [0 ..< 750]) textureInitial) = []"
    by (simp_all add: initial_fields)
qed

lemma later_stamps:
  assumes "y \<in> set (zip (map urlNo [2 ..< 750]) (map (\<lambda>i. 1 + 2 * real i + 1) [2 ..< 750]) @ [(u, 2001)])"
  shows "6 \<le> snd y"
proof -
  from assms consider
      "(fst y, snd y) \<in> set (zip (map urlNo [2 ..< 750]) (map (\<lambda>i. 1 + 2 * real i + 1) [2 ..< 750]))"
    | "y = (u, 2001)"
    by auto
  then show ?thesis
  proof cases
    case 1
    from stamps_lower [OF this] show ?thesis by simp
  next
    case 2
    then show ?thesis by simp
  qed
qed

lemma urlNo_750_new:
  "urlNo 750 \<noteq> urlNo 0" "urlNo 750 \<noteq> urlNo 1" "urlNo 0 \<noteq> urlNo 1"
  "urlNo 750 \<notin> fst ` set (zip (map urlNo [2 ..< 750]) ns)"
  "urlNo 0 \<notin> fst ` set (zip (map urlNo [2 ..< 750]) ns)"
  "urlNo 1 \<notin> fst ` set (zip (map urlNo [2 ..< 750]) ns)"
proof -
  show "urlNo 750 \<noteq> urlNo 0" "urlNo 750 \<noteq> urlNo 1" "urlNo 0 \<noteq> urlNo 1"
    by (simp_all add: urlNo_inj)
  have k: "fst ` set (zip (map urlNo [2 ..< 750]) ns) \<subseteq> urlNo ` {2 ..< 750}"
    using zip_keys [of "map urlNo [2 ..< 750]" ns] by simp
  have "urlNo 750 \<notin> urlNo ` {2 ..< 750}" "urlNo 0 \<notin> urlNo ` {2 ..< 750}"
    "urlNo 1 \<notin> urlNo ` {2 ..< 750}"
    by (auto simp: urlNo_inj)
  with k show "urlNo 750 \<notin> fst ` set (zip (map urlNo [2 ..< 750]) ns)"
    "urlNo 0 \<notin> fst ` set (zip (map urlNo [2 ..< 750]) ns)"
    "urlNo 1 \<notin> fst ` set (zip (map urlNo [2 ..< 750]) ns)"
    by blast+
qed

text \<open>
  Claim C4 at a failing input. The cache is full: \<open>u0, \<dots>, u749\<close> were requested and
  loaded one after the other, \<open>u0\<close> first. The texture of \<open>u0\<close> is then read with
  \<^verbatim>\<open>getCachedTexture\<close>, which returns it and writes nothing. When \<open>u750\<close> is requested and
  loaded next, eviction still finds \<open>u0\<close> with the oldest timestamp: the texture just
  read is disposed of and gone from the cache.
\<close>

theorem cached_read_does_not_refresh:
  "getCachedTexture (urlNo 0) (sequentialLoads 1 (map urlNo [0 ..< 750]) textureInitial) = Some 0
   \<and> getCachedTexture (urlNo 0)
       (loadFinished (urlNo 750) True 2001 (getTexture (mediaAt (urlNo 750)) None 2000
          (sequentialLoads 1 (map urlNo [0 ..< 750]) textureInitial))) = None
   \<and> disposed
       (loadFinished (urlNo 750) True 2001 (getTexture (mediaAt (urlNo 750)) None 2000
          (sequentialLoads 1 (map urlNo [0 ..< 750]) textureInitial))) = [0]"
proof -
  let ?S = "sequentialLoads 1 (map urlNo [0 ..< 750]) textureInitial"
  let ?u = "urlNo 750"
  note S = full_cache
  let ?R = "roundInserted ?u 2001 ?S"
  have u: "?u \<noteq> []" "?u \<notin> set (loadingUrls ?S)" "?u \<notin> fst ` set (textureCache ?S)"
    "?u \<notin> fst ` set (textureLastUsed ?S)"
    unfolding S using urlNo_750_new by (simp_all add: urlNo_facts)
  have a: "activeLoads ?S < MAX_CONCURRENT_LOADS" by (simp add: S MAX_CONCURRENT_LOADS_def)
  have F: "loadFinished ?u True 2001 (getTexture (mediaAt ?u) None 2000 ?S)
      = (evictOldTextures ?R)\<lparr>activeLoads := activeLoads ?S, loadingUrls := loadingUrls ?S,
           inFlight := remove1 ?u (inFlight ?S @ [?u])\<rparr>"
    by (rule load_round [OF S(4) a S(7) u])
  have len: "length (textureCache ?R) = Suc MAX_CACHE_SIZE"
    by (simp add: S MAX_CACHE_SIZE_def)
  let ?rest = "(urlNo 1, 4) # zip (map urlNo [2 ..< 750]) (map (\<lambda>i. 1 + 2 * real i + 1) [2 ..< 750])
                 @ [(?u, 2001)]"
  have L: "textureLastUsed ?R = (urlNo 0, 2) # ?rest" by (simp add: S)
  have low: "\<forall>y \<in> set ?rest. snd (urlNo 0, 2 :: real) \<le> snd y"
  proof
    fix y assume "y \<in> set ?rest"
    then have "y = (urlNo 1, 4) \<or> y \<in> set (zip (map urlNo [2 ..< 750])
        (map (\<lambda>i. 1 + 2 * real i + 1) [2 ..< 750]) @ [(?u, 2001)])"
      by simp
    then show "snd (urlNo 0, 2 :: real) \<le> snd y"
    proof
      assume "y = (urlNo 1, 4)"
      then show ?thesis by simp
    next
      assume "y \<in> set (zip (map urlNo [2 ..< 750])
        (map (\<lambda>i. 1 + 2 * real i + 1) [2 ..< 750]) @ [(?u, 2001)])"
      from later_stamps [OF this] show ?thesis by simp
    qed
  qed
  have hd: "fst (hd (sort_key snd (textureLastUsed ?R))) = urlNo 0"
    unfolding L by (simp only: sort_key_least_first [OF low] list.sel fst_conv)
  have ne: "textureLastUsed ?R \<noteq> []" unfolding L by simp
  have ev: "evictOldTextures ?R = evictOne ?R (urlNo 0)"
    using evictOldTextures_one_over [OF len ne] by (simp only: hd)
  have m: "map_of (textureCache ?R) (urlNo 0) = Some 0" by (simp add: S)
  have c: "map_of (textureCache (evictOldTextures ?R)) (urlNo 0) = None"
    unfolding ev evictOne_cache(1) by (simp add: delete_conv')
  have d: "disposed (evictOldTextures ?R) = [0]"
    unfolding ev evictOne_cache(3) m by (simp add: S)
  have r: "getCachedTexture (urlNo 0) ?S = Some 0"
    by (simp add: getCachedTexture_def S)
  show ?thesis
    unfolding F using c d r by (simp add: getCachedTexture_def)
qed

text \<open>
  The sibling path: had \<open>u0\<close> been read with \<^verbatim>\<open>getTexture\<close> instead, its timestamp would
  have been refreshed, and the same load would have evicted \<open>u1\<close> and kept \<open>u0\<close>.
\<close>

lemma request_on_full_cache:
  "getTexture (mediaAt (urlNo 0)) None 1999 (sequentialLoads 1 (map urlNo [0 ..< 750]) textureInitial)
   = (sequentialLoads 1 (map urlNo [0 ..< 750]) textureInitial)
       \<lparr>textureLastUsed := AList.update (urlNo 0) 1999
          (textureLastUsed (sequentialLoads 1 (map urlNo [0 ..< 750]) textureInitial))\<rparr>"
  by (simp add: getTexture_def Let_def mediaAt_def full_cache(1))

lemma refreshed_cache:
  "textureCache (getTexture (mediaAt (urlNo 0)) None 1999
       (sequentialLoads 1 (map urlNo [0 ..< 750]) textureInitial))
     = (urlNo 0, 0) # (urlNo 1, 1) # zip (map urlNo [2 ..< 750]) [2 ..< 750]"
  "textureLastUsed (getTexture (mediaAt (urlNo 0)) None 1999
       (sequentialLoads 1 (map urlNo [0 ..< 750]) textureInitial))
     = (urlNo 0, 1999) # (urlNo 1, 4)
       # zip (map urlNo [2 ..< 750]) (map (\<lambda>i. 1 + 2 * real i + 1) [2 ..< 750])"
  "disposed (getTexture (mediaAt (urlNo 0)) None 1999
       (sequentialLoads 1 (map urlNo [0 ..< 750]) textureInitial)) = []"
  "loadQueue (getTexture (mediaAt (urlNo 0)) None 1999
       (sequentialLoads 1 (map urlNo [0 ..< 750]) textureInitial)) = []"
  "activeLoads (getTexture (mediaAt (urlNo 0)) None 1999
       (sequentialLoads 1 (map urlNo [0 ..< 750]) textureInitial)) = 0"
  "loadingUrls (getTexture (mediaAt (urlNo 0)) None 1999
       (sequentialLoads 1 (map urlNo [0 ..< 750]) textureInitial)) = []"
  "loadCallbacks (getTexture (mediaAt (urlNo 0)) None 1999
       (sequentialLoads 1 (map urlNo [0 ..< 750]) textureInitial)) = []"
  unfolding request_on_full_cache by (simp add: full_cache)+

lemma request_refreshes:
  "getCachedTexture (urlNo 0)
       (loadFinished (urlNo 750) True 2001 (getTexture (mediaAt (urlNo 750)) None 2000
          (getTexture (mediaAt (urlNo 0)) None 1999
             (sequentialLoads 1 (map urlNo [0 ..< 750]) textureInitial)))) = Some 0
   \<and> disposed
       (loadFinished (urlNo 750) True 2001 (getTexture (mediaAt (urlNo 750)) None 2000
          (getTexture (mediaAt (urlNo 0)) None 1999
             (sequentialLoads 1 (map urlNo [0 ..< 750]) textureInitial)))) = [1]"
proof -
  let ?S = "getTexture (mediaAt (urlNo 0)) None 1999
              (sequentialLoads 1 (map urlNo [0 ..< 750]) textureInitial)"
  let ?u = "urlNo 750"
  note S = refreshed_cache
  let ?R = "roundInserted ?u 2001 ?S"
  have u: "?u \<noteq> []" "?u \<notin> set (loadingUrls ?S)" "?u \<notin> fst ` set (textureCache ?S)"
    "?u \<notin> fst ` set (textureLastUsed ?S)"
    unfolding S using urlNo_750_new by (simp_all add: urlNo_facts)
  have a: "activeLoads ?S < MAX_CONCURRENT_LOADS" by (simp add: S MAX_CONCURRENT_LOADS_def)
  have F: "loadFinished ?u True 2001 (getTexture (mediaAt ?u) None 2000 ?S)
      = (evictOldTextures ?R)\<lparr>activeLoads := activeLoads ?S, loadingUrls := loadingUrls ?S,
           inFlight := remove1 ?u (inFlight ?S @ [?u])\<rparr>"
    by (rule load_round [OF S(4) a S(7) u])
  have len: "length (textureCache ?R) = Suc MAX_CACHE_SIZE"
    by (simp add: S MAX_CACHE_SIZE_def)
  let ?zs = "zip (map urlNo [2 ..< 750]) (map (\<lambda>i. 1 + 2 * real i + 1) [2 ..< 750]) @ [(?u, 2001)]"
  have L: "textureLastUsed ?R = (urlNo 0, 1999) # (urlNo 1, 4) # ?zs"
    by (simp add: S)
  have low: "\<forall>z \<in> set ?zs. snd (urlNo 1, 4 :: real) \<le> snd z"
  proof
    fix z assume "z \<in> set ?zs"
    from later_stamps [OF this] show "snd (urlNo 1, 4 :: real) \<le> snd z" by simp
  qed
  have "hd (sort_key snd (textureLastUsed ?R)) = (urlNo 1, 4)"
    unfolding L by (rule sort_key_second_least_first [OF low]) simp
  then have hd: "fst (hd (sort_key snd (textureLastUsed ?R))) = urlNo 1" by simp
  have ne: "textureLastUsed ?R \<noteq> []" unfolding L by simp
  have ev: "evictOldTextures ?R = evictOne ?R (urlNo 1)"
    using evictOldTextures_one_over [OF len ne] by (simp only: hd)
  have m: "map_of (textureCache ?R) (urlNo 1) = Some 1" "map_of (textureCache ?R) (urlNo 0) = Some 0"
    using urlNo_750_new(3) by (simp_all add: S)
  have c: "map_of (textureCache (evictOldTextures ?R)) (urlNo 0) = Some 0"
    unfolding ev evictOne_cache(1) using m(2) urlNo_750_new(3) by (simp add: delete_conv')
  have d: "disposed (evictOldTextures ?R) = [1]"
    unfolding ev evictOne_cache(3) m by (simp add: S)
  show ?thesis
    unfolding F using c d by (simp add: getCachedTexture_def)
qed

end
